theory Spec2Isabelle
  imports Main "HOL-Library.Word" "HOL-Library.Sublist"
begin

section \<open>The mailbox monitor: data model\<close>

text \<open>
  A shallow embedding of the Go packages \<open>imapclient\<close>, \<open>webhook\<close> and of the
  consumer loop of \<open>cmd/monitor\<close>. Go's \<open>int\<close> and \<open>time.Duration\<close> are
  modelled as \<open>int\<close> (a duration counts nanoseconds); none of the counters below
  can reach the 64-bit limits in fewer than \<open>2^63\<close> calls. Message counts and UIDs are
  \<open>uint32\<close> and are modelled as \<open>32 word\<close>. Locks are not modelled: what runs under
  a lock runs atomically, and a function that waits is given what the other goroutines,
  the clock and the network do meanwhile as an argument.
\<close>

type_synonym uint32 = "32 word"
type_synonym Duration = int

definition Millisecond :: Duration where
  "Millisecond = 1000000"

definition Second :: Duration where
  "Second = 1000000000"

text \<open>
  Go errors. \<open>errors.New(s)\<close> is \<open>ErrorNew s\<close>; \<open>fmt.Errorf("p: %w", e)\<close> is
  \<open>Errorf p e\<close>, whose text is the prefix, a colon, a blank and the text of the wrapped
  error. Errors produced by the IMAP library are arbitrary values of this type.
\<close>

datatype error = ErrorNew string | Errorf string error

fun Error :: "error \<Rightarrow> string" where
  "Error (ErrorNew s) = s"
| "Error (Errorf p e) = p @ '': '' @ Error e"

record OpStat =
  Count :: int
  Errors :: int
  LastDuration :: Duration
  TotalDuration :: Duration
  LastError :: string

text \<open>The fields of \<open>config.Config\<close> that the modelled functions read.\<close>

record Config =
  UseTLS :: bool
  StartTLS :: bool
  CheckInterval :: Duration
  DrainTimeout :: Duration

text \<open>A live connection (\<open>*client.Client\<close>) is an opaque handle.\<close>

datatype Conn = Conn nat

record Client =
  cfg :: Config
  c :: "Conn option"
  closed :: bool
  opStats :: "string \<rightharpoonup> OpStat"
  activeFetches :: int

text \<open>The defaults that \<open>config.Load\<close> starts from.\<close>

definition default_config :: Config where
  "default_config = \<lparr>UseTLS = True, StartTLS = False, CheckInterval = 30 * Second,
     DrainTimeout = 3 * Second\<rparr>"

definition New :: "Config \<Rightarrow> Client" where
  "New cf = \<lparr>cfg = cf, c = None, closed = False, opStats = Map.empty, activeFetches = 0\<rparr>"

section \<open>The in-flight counter\<close>

definition BeginProcess :: "Client \<Rightarrow> Client" where
  "BeginProcess cl = cl\<lparr>activeFetches := activeFetches cl + 1\<rparr>"

definition EndProcess :: "Client \<Rightarrow> Client" where
  "EndProcess cl =
     (if activeFetches cl > 0 then cl\<lparr>activeFetches := activeFetches cl - 1\<rparr> else cl)"

text \<open>
  A schedule of calls on the counter: the two functions take the lock \<open>activeMu\<close>, so
  concurrent calls are serialised and any execution is some sequence of calls.
\<close>

datatype call = Begin | End

fun apply_call :: "Client \<Rightarrow> call \<Rightarrow> Client" where
  "apply_call cl Begin = BeginProcess cl"
| "apply_call cl End = EndProcess cl"

definition run_calls :: "Client \<Rightarrow> call list \<Rightarrow> Client" where
  "run_calls cl cs = foldl apply_call cl cs"

text \<open>
  A schedule in which every \<open>EndProcess\<close> follows a \<open>BeginProcess\<close> of its own: no
  prefix holds more \<open>End\<close> than \<open>Begin\<close>.
\<close>

definition ends_follow_begins :: "call list \<Rightarrow> bool" where
  "ends_follow_begins cs =
     list_all (\<lambda>k. count_list (take k cs) End \<le> count_list (take k cs) Begin)
       [0 ..< Suc (length cs)]"

section \<open>Draining\<close>

text \<open>
  \<open>drain\<close> reads the clock, the counter and the context while the consumer runs
  concurrently. What the loop cannot decide itself is given by a schedule, indexed by the
  number of the poll: how many \<open>EndProcess\<close> calls the consumer makes while the loop sleeps
  after poll \<open>k\<close>, whether the context is done before the timer of that sleep fires, and by
  how many nanoseconds the timer fires late (\<open>time.After\<close> waits at least its duration).
  Time is a count of nanoseconds and passes only while the loop sleeps.
\<close>

type_synonym Time = int

record Sched =
  ends_during :: "nat \<Rightarrow> nat"
  ctx_done_during :: "nat \<Rightarrow> bool"
  lateness :: "nat \<Rightarrow> nat"

datatype drain_exit = NoWait | AllDone | DeadlineHit | CtxDone

text \<open>
  What a call of \<open>drain\<close> did: the return statement it left by, the time of the return
  (for a return on a done context, the time at which the interrupted sleep began), the
  number of times it read the counter, and the client as the consumer left it.
\<close>

record drain_result =
  exit :: drain_exit
  at :: Time
  polls :: nat
  client :: Client

definition pollInterval :: Duration where
  "pollInterval = 100 * Millisecond"

function drain_loop :: "Time \<Rightarrow> Sched \<Rightarrow> nat \<Rightarrow> Time \<Rightarrow> Client \<Rightarrow> drain_result" where
  "drain_loop deadline env k now cl =
     (if activeFetches cl = 0 then \<lparr>exit = AllDone, at = now, polls = Suc k, client = cl\<rparr>
      else if now > deadline then \<lparr>exit = DeadlineHit, at = now, polls = Suc k, client = cl\<rparr>
      else if ctx_done_during env k then \<lparr>exit = CtxDone, at = now, polls = Suc k, client = cl\<rparr>
      else drain_loop deadline env (Suc k) (now + pollInterval + int (lateness env k))
             ((EndProcess ^^ ends_during env k) cl))"
  by pat_completeness auto
termination
  by (relation "measure (\<lambda>(deadline, env, k, now, cl). nat (deadline - now + 1))")
     (auto simp: pollInterval_def Millisecond_def)

declare drain_loop.simps [simp del]

definition drain :: "Sched \<Rightarrow> Time \<Rightarrow> Client \<Rightarrow> drain_result" where
  "drain env now cl =
     (if DrainTimeout (cfg cl) \<le> 0 then \<lparr>exit = NoWait, at = now, polls = 0, client = cl\<rparr>
      else drain_loop (now + DrainTimeout (cfg cl)) env 0 now cl)"

text \<open>The client that poll \<open>k + j\<close> reads, when poll \<open>k\<close> read \<open>cl\<close>.\<close>

fun client_after :: "Sched \<Rightarrow> nat \<Rightarrow> nat \<Rightarrow> Client \<Rightarrow> Client" where
  "client_after env k 0 cl = cl"
| "client_after env k (Suc j) cl =
     client_after env (Suc k) j ((EndProcess ^^ ends_during env k) cl)"

text \<open>
  A consumer that never calls \<open>EndProcess\<close>, a context that is never cancelled, timers
  that fire on time.
\<close>

definition stuck :: Sched where
  "stuck = \<lparr>ends_during = (\<lambda>k. 0), ctx_done_during = (\<lambda>k. False), lateness = (\<lambda>k. 0)\<rparr>"

section \<open>Connecting\<close>

text \<open>
  The commands a connection attempt sends, in the order sent. What the network and the
  server answer during one attempt is given by a \<open>Net\<close>: for each command the error it
  returns, if any, and the handle of the connection a successful dial yields.
\<close>

datatype action = DoDialTLS | DoDial | DoStartTLS | DoLogin | DoSelect | DoLogout

record Net =
  dial_err :: "error option"
  starttls_err :: "error option"
  login_err :: "error option"
  select_err :: "error option"
  handle :: nat

text \<open>A server that refuses the connection.\<close>

definition refused :: Net where
  "refused = \<lparr>dial_err = Some (ErrorNew ''connection refused''), starttls_err = None,
     login_err = None, select_err = None, handle = 1\<rparr>"

text \<open>\<open>Connect\<close> from the login on, after the commands \<open>sent\<close>.\<close>

definition Connect_login :: "Net \<Rightarrow> Client \<Rightarrow> action list \<Rightarrow> Client \<times> error option \<times> action list" where
  "Connect_login net cl sent =
     (case login_err net of
        Some e \<Rightarrow> (cl, Some (Errorf ''login'' e), sent @ [DoLogin, DoLogout])
      | None \<Rightarrow>
         (case select_err net of
            Some e \<Rightarrow> (cl, Some (Errorf ''select mailbox'' e), sent @ [DoLogin, DoSelect, DoLogout])
          | None \<Rightarrow> (cl\<lparr>c := Some (Conn (handle net))\<rparr>, None, sent @ [DoLogin, DoSelect])))"

definition Connect :: "Net \<Rightarrow> Client \<Rightarrow> Client \<times> error option \<times> action list" where
  "Connect net cl =
     (if closed cl then (cl, Some (ErrorNew ''client closed''), [])
      else if c cl \<noteq> None then (cl, None, [])
      else if UseTLS (cfg cl) then
        (case dial_err net of
           Some e \<Rightarrow> (cl, Some (Errorf ''dial'' e), [DoDialTLS])
         | None \<Rightarrow> Connect_login net cl [DoDialTLS])
      else
        (case dial_err net of
           Some e \<Rightarrow> (cl, Some (Errorf ''dial'' e), [DoDial])
         | None \<Rightarrow>
            if StartTLS (cfg cl) then
              (case starttls_err net of
                 Some e \<Rightarrow> (cl, Some (Errorf ''starttls'' e), [DoDial, DoStartTLS, DoLogout])
               | None \<Rightarrow> Connect_login net cl [DoDial, DoStartTLS])
            else Connect_login net cl [DoDial]))"

text \<open>
  The contract of \<open>connect()\<close> in the words of the specification: the steps of an attempt
  in their order, each with the name of its phase and its outcome, and the run of such a
  list up to the first step that fails.
\<close>

definition connect_steps :: "Client \<Rightarrow> Net \<Rightarrow> (action \<times> string \<times> error option) list" where
  "connect_steps cl net =
     [(if UseTLS (cfg cl) then DoDialTLS else DoDial, ''dial'', dial_err net)] @
     (if \<not> UseTLS (cfg cl) \<and> StartTLS (cfg cl)
      then [(DoStartTLS, ''starttls'', starttls_err net)] else []) @
     [(DoLogin, ''login'', login_err net), (DoSelect, ''select mailbox'', select_err net)]"

fun first_failure :: "(action \<times> string \<times> error option) list \<Rightarrow> action list \<times> (string \<times> error) option" where
  "first_failure [] = ([], None)"
| "first_failure ((a, ph, None) # rest) = (a # fst (first_failure rest), snd (first_failure rest))"
| "first_failure ((a, ph, Some e) # rest) = ([a], Some (ph, e))"

text \<open>
  The head of \<open>IdleLoop\<close>: connect, and on failure sleep and retry. Each pass of the loop
  reads the context and makes one connection attempt; the passes are given as a list, and
  a list that is used up while the loop still retries leaves it \<open>Retrying\<close>. The result
  holds the durations slept, in order, and the value of \<open>backoff\<close> at the end; the log
  line of a failed attempt is left out.
\<close>

record Pass =
  ctx_err :: "error option"
  network :: Net

datatype connect_exit = Returned error | Connected | Retrying

fun IdleLoop_connect :: "Duration \<Rightarrow> Pass list \<Rightarrow> Client \<Rightarrow> Client \<times> Duration list \<times> Duration \<times> connect_exit" where
  "IdleLoop_connect backoff [] cl = (cl, [], backoff, Retrying)"
| "IdleLoop_connect backoff (p # ps) cl =
     (case ctx_err p of
        Some e \<Rightarrow> (cl, [], backoff, Returned e)
      | None \<Rightarrow>
         (case Connect (network p) cl of
            (cl', Some err, sent) \<Rightarrow>
              (case IdleLoop_connect (if backoff < 30 * Second then backoff * 2 else backoff) ps cl' of
                 (cl'', slept, b, ex) \<Rightarrow> (cl'', backoff # slept, b, ex))
          | (cl', None, sent) \<Rightarrow> (cl', [], Second, Connected)))"

section \<open>Serialised commands and their statistics\<close>

definition updateStats :: "Client \<Rightarrow> string \<Rightarrow> Duration \<Rightarrow> error option \<Rightarrow> Client" where
  "updateStats cl op d err =
     (let st = (case opStats cl op of
                  None \<Rightarrow> \<lparr>Count = 0, Errors = 0, LastDuration = 0, TotalDuration = 0, LastError = ''''\<rparr>
                | Some s \<Rightarrow> s);
          st1 = st\<lparr>Count := Count st + 1, LastDuration := d, TotalDuration := TotalDuration st + d\<rparr>;
          st2 = (case err of
                   Some e \<Rightarrow> st1\<lparr>Errors := Errors st1 + 1, LastError := Error e\<rparr>
                 | None \<Rightarrow> st1\<lparr>LastError := ''''\<rparr>)
      in cl\<lparr>opStats := (opStats cl)(op \<mapsto> st2)\<rparr>)"

text \<open>
  One call of \<open>Exec\<close>: the clock when it starts and when its \<open>select\<close> is over, and the
  case of the \<open>select\<close> that fires: the operation returned (with its error, if any), or
  the context was done first (deadline or cancellation, with the context's error).
\<close>

datatype select_case = OpReturned "error option" | ContextDone error

record ExecRun =
  started :: Time
  finished :: Time
  fired :: select_case

definition Exec :: "Client \<Rightarrow> string \<Rightarrow> ExecRun \<Rightarrow> Client \<times> error option" where
  "Exec cl op run =
     (case c cl of
        None \<Rightarrow> (cl, Some (ErrorNew ''no connection''))
      | Some conn \<Rightarrow>
         (let err = (case fired run of
                       ContextDone ce \<Rightarrow> Some (Errorf (''op '' @ op @ '' timeout or canceled'') ce)
                     | OpReturned e \<Rightarrow> e);
              dur = finished run - started run
          in (updateStats cl op dur err, err)))"

section \<open>Emitting the new messages\<close>

datatype Event = Event (UID: uint32)

text \<open>
  What a function does besides changing the client: the commands it sends, the lines it
  logs whatever the debug setting (a message and the error printed after it), the
  durations it sleeps and the closing of the \<open>stop\<close> channel that ends the long poll.
\<close>

datatype effect =
    Sent action
  | FetchUids uint32 uint32
  | Logged string error
  | Slept Duration
  | StopClosed

definition reset :: "Client \<Rightarrow> string \<Rightarrow> error \<Rightarrow> Client \<times> effect list" where
  "reset cl reason err =
     (cl\<lparr>c := None\<rparr>,
      (if c cl \<noteq> None then [Sent DoLogout] else []) @ [Logged (''reset connection: '' @ reason) err])"

text \<open>
  One call of \<open>handleNewMessages\<close> meets: a context that is done or not when the function
  looks at it before leaving the long poll; the error, if any, with which the long poll
  ends once \<open>stop\<close> is closed; the run of its \<open>Exec\<close>; the server's reply to the fetch of
  a range of sequence numbers, as the UIDs of the messages that the library puts on the
  channel, in the order it puts them; and for the message at each position of that reply
  the case its \<open>select\<close> takes, \<open>True\<close> for the push onto \<open>events\<close> and \<open>False\<close> for
  the context being done.
\<close>

record Cycle =
  ctx_done_at_entry :: bool
  idle_exit_err :: "error option"
  exec_run :: ExecRun
  fetch_reply :: "uint32 \<Rightarrow> uint32 \<Rightarrow> uint32 list"
  push_taken :: "nat \<Rightarrow> bool"

text \<open>The loop over the channel of fetched messages, at position \<open>k\<close> of the reply.\<close>

fun emit :: "(nat \<Rightarrow> bool) \<Rightarrow> nat \<Rightarrow> uint32 list \<Rightarrow> Client \<Rightarrow> Client \<times> Event list" where
  "emit taken k [] cl = (cl, [])"
| "emit taken k (uid # uids) cl =
     (if taken k
      then (case emit taken (Suc k) uids (BeginProcess cl) of
              (cl', evs) \<Rightarrow> (cl', Event uid # evs))
      else emit taken (Suc k) uids (EndProcess (BeginProcess cl)))"

record Handled =
  ret :: bool
  new_baseline :: uint32
  after :: Client
  emitted :: "Event list"
  effects :: "effect list"

text \<open>
  \<open>idling\<close> stands for \<open>stop != nil && done != nil\<close>. The baseline is passed by
  pointer in the source; here it goes in by value and comes out as \<open>new_baseline\<close>.
\<close>

definition handleNewMessages :: "Cycle \<Rightarrow> bool \<Rightarrow> uint32 \<Rightarrow> uint32 \<Rightarrow> Client \<Rightarrow> Handled" where
  "handleNewMessages env idling newTotal baseline cl =
     (if newTotal \<le> baseline then
        \<lparr>ret = False, new_baseline = baseline, after = cl, emitted = [], effects = []\<rparr>
      else if idling \<and> ctx_done_at_entry env then
        \<lparr>ret = False, new_baseline = baseline, after = cl, emitted = [], effects = []\<rparr>
      else
        (case (if idling then idle_exit_err env else None) of
           Some err \<Rightarrow>
             (case reset cl ''idle exit before fetch'' err of
                (cl', effs) \<Rightarrow>
                  \<lparr>ret = False, new_baseline = baseline, after = cl', emitted = [],
                   effects = [StopClosed] @ effs @ [Slept (2 * Second)]\<rparr>)
         | None \<Rightarrow>
             (let left_idle = (if idling then [StopClosed] else []);
                  fetch = (if c cl \<noteq> None then [FetchUids (baseline + 1) newTotal] else [])
              in case Exec cl ''fetch-uids'' (exec_run env) of
                   (cl1, Some err) \<Rightarrow>
                     \<lparr>ret = True, new_baseline = newTotal, after = cl1, emitted = [],
                      effects = left_idle @ fetch @ [Logged ''fetch uids error'' err]\<rparr>
                 | (cl1, None) \<Rightarrow>
                     (case emit (push_taken env) 0 (fetch_reply env (baseline + 1) newTotal) cl1 of
                        (cl2, evs) \<Rightarrow>
                          \<lparr>ret = True, new_baseline = newTotal, after = cl2, emitted = evs,
                           effects = left_idle @ fetch\<rparr>))))"

text \<open>
  The IMAP server is not part of the program. A mailbox is the list of the UIDs of its
  messages by sequence number, which IMAP counts from 1; a server that answers a fetch of
  the sequence numbers \<open>lo\<close> to \<open>hi\<close> in full and in order replies with \<open>seq_uids\<close>.
\<close>

definition seq_uids :: "uint32 list \<Rightarrow> uint32 \<Rightarrow> uint32 \<Rightarrow> uint32 list" where
  "seq_uids mbox lo hi = take (Suc (unat hi) - unat lo) (drop (unat lo - 1) mbox)"

text \<open>A mailbox of 43 messages with the UIDs 1001 to 1043, and a cycle that goes well.\<close>

definition mailbox43 :: "uint32 list" where
  "mailbox43 = map word_of_nat [1001 ..< 1044]"

definition smooth :: "uint32 list \<Rightarrow> Cycle" where
  "smooth mbox = \<lparr>ctx_done_at_entry = False, idle_exit_err = None,
     exec_run = \<lparr>started = 0, finished = 20 * Millisecond, fired = OpReturned None\<rparr>,
     fetch_reply = seq_uids mbox, push_taken = (\<lambda>k. True)\<rparr>"

section \<open>The consumer: fetching a message with retries\<close>

text \<open>
  The consumer classifies a fetch error by its text with the regular expression
  \<open>(?i)(short write|timeout|temporarily|reset|closed)\<close>. Go strings are byte strings in
  UTF-8, and so are the strings here. Under \<open>(?i)\<close> a letter of the pattern matches every
  rune of its case-folding orbit: for an ASCII letter that is the letter in both cases,
  and besides, for \<open>s\<close> the long s (U+017F, the bytes C5 BF) and for \<open>k\<close> the Kelvin sign
  (U+212A, the bytes E2 84 AA). \<open>fold_head\<close> reads the rune at the head of a text and
  gives the ASCII character it folds to (a byte that is no such rune is left as it is) and
  the rest of the text.
\<close>

definition ascii_lower :: "char \<Rightarrow> char" where
  "ascii_lower x =
     (if (65::nat) \<le> of_char x \<and> of_char x \<le> (90::nat) then char_of (of_char x + (32::nat)) else x)"

definition long_s :: "string \<Rightarrow> bool" where
  "long_s t = (take 2 t = [CHR 0xC5, CHR 0xBF])"

definition kelvin :: "string \<Rightarrow> bool" where
  "kelvin t = (take 3 t = [CHR 0xE2, CHR 0x84, CHR 0xAA])"

definition fold_head :: "string \<Rightarrow> char \<times> string" where
  "fold_head t =
     (if long_s t then (CHR ''s'', drop 2 t)
      else if kelvin t then (CHR ''k'', drop 3 t)
      else (ascii_lower (hd t), tl t))"

text \<open>A literal of the pattern matches at the head of the text.\<close>

fun fold_prefix :: "string \<Rightarrow> string \<Rightarrow> bool" where
  "fold_prefix [] t = True"
| "fold_prefix (p # ps) [] = False"
| "fold_prefix (p # ps) (x # t) =
     (fst (fold_head (x # t)) = ascii_lower p \<and> fold_prefix ps (snd (fold_head (x # t))))"

definition transient_alternatives :: "string list" where
  "transient_alternatives = [''short write'', ''timeout'', ''temporarily'', ''reset'', ''closed'']"

text \<open>
  \<open>transientRe.MatchString\<close>: the expression is not anchored, so it matches when one of
  its alternatives matches at some position of the text.
\<close>

definition transientRe_MatchString :: "string \<Rightarrow> bool" where
  "transientRe_MatchString text =
     list_ex (\<lambda>rest. list_ex (\<lambda>p. fold_prefix p rest) transient_alternatives) (suffixes text)"

text \<open>
  The words of the specification: the text matches one of the fixed substrings without
  regard to case. \<open>casefold\<close> folds a whole text rune by rune.
\<close>

fun casefold :: "string \<Rightarrow> string" where
  "casefold [] = []"
| "casefold (x # t) =
     (if long_s (x # t) then CHR ''s'' # casefold (drop 1 t)
      else if kelvin (x # t) then CHR ''k'' # casefold (drop 2 t)
      else ascii_lower x # casefold t)"

definition matches_ignoring_case :: "string \<Rightarrow> string \<Rightarrow> bool" where
  "matches_ignoring_case p text = (\<exists>mid. sublist mid text \<and> casefold mid = p)"

text \<open>The bytes that are runes by themselves.\<close>

definition ascii :: "char \<Rightarrow> bool" where
  "ascii x = (of_char x < (128::nat))"

text \<open>
  The retry loop of the consumer. \<open>parser.FetchAndParse\<close> is outside the modelled code:
  \<open>fetch k\<close> is what its call in pass \<open>k\<close> of the loop returns, a message and an
  error. The loop yields the number of calls made, the durations slept and the values
  of \<open>msg\<close> and \<open>perr\<close> when it is left.
\<close>

definition maxFetchRetry :: nat where
  "maxFetchRetry = 2"

record 'm Retried =
  calls :: nat
  slept :: "Duration list"
  msg :: "'m option"
  perr :: "error option"

function fetch_loop :: "(nat \<Rightarrow> 'm option \<times> error option) \<Rightarrow> nat \<Rightarrow> 'm Retried \<Rightarrow> 'm Retried" where
  "fetch_loop fetch attempt st =
     (if attempt \<le> maxFetchRetry then
        (let st' = st\<lparr>calls := calls st + 1, msg := fst (fetch attempt), perr := snd (fetch attempt)\<rparr>
         in case perr st' of
              None \<Rightarrow> st'
            | Some e \<Rightarrow>
                if \<not> transientRe_MatchString (Error e) then st'
                else fetch_loop fetch (Suc attempt) (st'\<lparr>slept := slept st' @ [150 * Millisecond]\<rparr>))
      else st)"
  by pat_completeness auto
termination
  by (relation "measure (\<lambda>(fetch, attempt, st). Suc maxFetchRetry - attempt)") auto

declare fetch_loop.simps [simp del]

text \<open>A result of \<open>FetchAndParse\<close> that makes the loop try again.\<close>

definition transient_failure :: "'m option \<times> error option \<Rightarrow> bool" where
  "transient_failure res =
     (case snd res of None \<Rightarrow> False | Some e \<Rightarrow> transientRe_MatchString (Error e))"

text \<open>
  The consumer's handling of one Event up to the point where the message is in hand: the
  fetch with its retries and, when it ends with an error, the log line for the UID and
  the release of the in-flight counter, after which the consumer goes on to the next
  Event.
\<close>

record 'm Fetch_outcome =
  retried :: "'m Retried"
  logged_failure :: "(uint32 \<times> error) option"
  client_after_fetch :: Client

definition consume_fetch :: "(nat \<Rightarrow> 'm option \<times> error option) \<Rightarrow> Event \<Rightarrow> Client \<Rightarrow> 'm Fetch_outcome" where
  "consume_fetch fetch ev cl =
     (let r = fetch_loop fetch 0 \<lparr>calls = 0, slept = [], msg = None, perr = None\<rparr>
      in case perr r of
           Some e \<Rightarrow> \<lparr>retried = r, logged_failure = Some (UID ev, e), client_after_fetch = EndProcess cl\<rparr>
         | None \<Rightarrow> \<lparr>retried = r, logged_failure = None, client_after_fetch = cl\<rparr>)"

section \<open>The webhook payload\<close>

text \<open>
  The blocks of a payload are values of any type (\<open>[]interface{}\<close>); a nil slice is the
  empty list.
\<close>

record 'b Payload =
  UID :: uint32
  Subject :: string
  From :: string
  Date :: string
  Body :: string
  BodyLines :: "string list"
  Preview :: string
  WordCount :: int
  Mailbox :: string
  Timestamp :: int
  RawHTML :: string
  Blocks :: "'b list"
  HasAttachments :: bool
  Attachments :: "string list"
  AttachmentCount :: int

text \<open>
  What \<open>BuildPayload\<close> takes from Go's library and runtime and what depends on Unicode
  tables is a parameter: \<open>strings.TrimSpace\<close>, \<open>strings.ToLower\<close>, the runes that
  \<open>range\<close> reads from a string, and \<open>time.Now().Unix()\<close>. The functions on bytes are
  written out.
\<close>

record Runtime =
  TrimSpace :: "string \<Rightarrow> string"
  ToLower :: "string \<Rightarrow> string"
  runes :: "string \<Rightarrow> nat list"
  now_unix :: int

definition newline :: char where
  "newline = CHR 0x0A"

text \<open>\<open>strings.Split(s, "\n")\<close>: one more piece than there are newlines.\<close>

fun Split_lines :: "string \<Rightarrow> string list" where
  "Split_lines [] = [[]]"
| "Split_lines (x # t) =
     (if x = newline then [] # Split_lines t
      else (case Split_lines t of [] \<Rightarrow> [[x]] | l # ls \<Rightarrow> (x # l) # ls))"

fun Join :: "string list \<Rightarrow> string \<Rightarrow> string" where
  "Join [] sep = []"
| "Join [s] sep = s"
| "Join (s # t) sep = s @ sep @ Join t sep"

text \<open>\<open>%d\<close> of a number that is not negative.\<close>

fun decimal :: "nat \<Rightarrow> string" where
  "decimal n = (if n < 10 then [char_of (48 + n)] else decimal (n div 10) @ [char_of (48 + n mod 10)])"

declare decimal.simps [simp del]

definition noise :: "string \<Rightarrow> bool" where
  "noise low = (prefix ''@media'' low \<or> prefix ''table '' low \<or> sublist ''font-family'' low
                \<or> sublist ''{'' low)"

definition isASCIIWord :: "nat \<Rightarrow> bool" where
  "isASCIIWord r = (r < 128 \<and> (97 \<le> r \<and> r \<le> 122 \<or> 65 \<le> r \<and> r \<le> 90 \<or> 48 \<le> r \<and> r \<le> 57 \<or> r = 95))"

definition isCJK :: "nat \<Rightarrow> bool" where
  "isCJK r = (0x4E00 \<le> r \<and> r \<le> 0x9FFF)"

text \<open>
  The loop of \<open>mixedWordCount\<close> over the runes; \<open>in_word\<close> says that the builder
  \<open>current\<close> is not empty.
\<close>

fun count_runes :: "nat list \<Rightarrow> bool \<Rightarrow> int \<Rightarrow> int" where
  "count_runes [] in_word n = (if in_word then n + 1 else n)"
| "count_runes (r # rs) in_word n =
     (if isASCIIWord r then count_runes rs True n
      else if isCJK r then count_runes rs False ((if in_word then n + 1 else n) + 1)
      else count_runes rs False (if in_word then n + 1 else n))"

definition mixedWordCount :: "Runtime \<Rightarrow> string \<Rightarrow> int" where
  "mixedWordCount rt s = count_runes (runes rt s) False 0"

definition semantic_first :: "Runtime \<Rightarrow> 'b Payload \<Rightarrow> string" where
  "semantic_first rt out =
     (case find (\<lambda>ln. ln \<noteq> [] \<and> \<not> noise (ToLower rt ln)) (map (TrimSpace rt) (Split_lines (Body out))) of
        Some ln \<Rightarrow> ln
      | None \<Rightarrow>
         (let trimmedBody = TrimSpace rt (map (\<lambda>x. if x = newline then CHR '' '' else x) (Body out))
          in if trimmedBody = [] \<and> HasAttachments out \<and> length (Attachments out) > 0 then
               (let maxList = (if length (Attachments out) > 5 then take 5 (Attachments out)
                               else Attachments out)
                in ''Attachments: '' @ Join maxList '', '' @
                   (if length (Attachments out) > length maxList
                    then '' (+'' @ decimal (length (Attachments out) - length maxList) @ '' more)''
                    else []))
             else trimmedBody))"

text \<open>
  \<open>ptr\<close> is the pointer \<open>msg\<close>, \<open>None\<close> when it is nil; \<open>Payload{}\<close> is the
  record whose fields are all zero.
\<close>

definition BuildPayload :: "Runtime \<Rightarrow> 'b Payload option \<Rightarrow> int \<Rightarrow> 'b Payload" where
  "BuildPayload rt ptr bodyLimit =
     (case ptr of
        None \<Rightarrow>
          \<lparr>UID = 0, Subject = '''', From = '''', Date = '''', Body = '''', BodyLines = [],
           Preview = '''', WordCount = 0, Mailbox = '''', Timestamp = 0, RawHTML = '''', Blocks = [],
           HasAttachments = False, Attachments = [], AttachmentCount = 0\<rparr>
      | Some m \<Rightarrow>
         (let semanticFirst = semantic_first rt m;
              out1 = m\<lparr>Preview := (if length semanticFirst > 140 then take 140 semanticFirst @ ''...''
                                    else semanticFirst)\<rparr>;
              out2 = (if bodyLimit > 0 \<and> int (length (Body out1)) > bodyLimit
                      then out1\<lparr>Body := take (nat bodyLimit) (Body out1) @ ''...<truncated>''\<rparr>
                      else out1);
              out3 = out2\<lparr>BodyLines := filter (\<lambda>ln. ln \<noteq> []) (map (TrimSpace rt) (Split_lines (Body out2)))\<rparr>;
              out4 = (if Body out3 \<noteq> [] then out3\<lparr>WordCount := mixedWordCount rt (Body out3)\<rparr> else out3)
          in if Timestamp out4 = 0 then out4\<lparr>Timestamp := now_unix rt\<rparr> else out4))"

text \<open>
  A runtime for plain ASCII text: blanks are trimmed, the letters A to Z are lowered, and
  every byte is a rune.
\<close>

definition ascii_runtime :: Runtime where
  "ascii_runtime = \<lparr>
     TrimSpace = (\<lambda>s. rev (dropWhile (\<lambda>x. x = CHR '' '') (rev (dropWhile (\<lambda>x. x = CHR '' '') s)))),
     ToLower = map ascii_lower,
     runes = map of_char,
     now_unix = 1727500000\<rparr>"

section \<open>Properties\<close>

subsection \<open>The in-flight counter\<close>

lemma apply_call_nonneg: "0 \<le> activeFetches cl \<Longrightarrow> 0 \<le> activeFetches (apply_call cl x)"
  by (cases x) (simp_all add: BeginProcess_def EndProcess_def)

lemma run_calls_nonneg: "0 \<le> activeFetches cl \<Longrightarrow> 0 \<le> activeFetches (run_calls cl cs)"
  unfolding run_calls_def
  by (induction cs arbitrary: cl) (simp_all add: apply_call_nonneg)

lemma run_calls_snoc: "run_calls cl (cs @ [x]) = apply_call (run_calls cl cs) x"
  by (simp add: run_calls_def)

lemma ends_follow_begins_iff:
  "ends_follow_begins cs \<longleftrightarrow>
     (\<forall>k \<le> length cs. count_list (take k cs) End \<le> count_list (take k cs) Begin)"
  by (auto simp: ends_follow_begins_def list_all_iff less_Suc_eq_le)

lemma ends_follow_begins_snoc:
  assumes "ends_follow_begins (cs @ [x])"
  shows "ends_follow_begins cs"
    and "count_list (cs @ [x]) End \<le> count_list (cs @ [x]) Begin"
proof -
  show "ends_follow_begins cs"
    unfolding ends_follow_begins_iff
  proof (intro allI impI)
    fix k assume k: "k \<le> length cs"
    then have "k \<le> length (cs @ [x])" by simp
    with assms have "count_list (take k (cs @ [x])) End \<le> count_list (take k (cs @ [x])) Begin"
      unfolding ends_follow_begins_iff by blast
    with k show "count_list (take k cs) End \<le> count_list (take k cs) Begin" by simp
  qed
  have "length (cs @ [x]) \<le> length (cs @ [x])" by simp
  with assms have "count_list (take (length (cs @ [x])) (cs @ [x])) End
      \<le> count_list (take (length (cs @ [x])) (cs @ [x])) Begin"
    unfolding ends_follow_begins_iff by blast
  then show "count_list (cs @ [x]) End \<le> count_list (cs @ [x]) Begin" by simp
qed

text \<open>
  While no \<open>EndProcess\<close> runs ahead of its \<open>BeginProcess\<close> the floor is never hit and
  the counter is the number of begun calls minus the number of ended ones.
\<close>

lemma run_calls_exact:
  "ends_follow_begins cs \<Longrightarrow> 0 \<le> activeFetches cl \<Longrightarrow>
   activeFetches (run_calls cl cs) =
     activeFetches cl + int (count_list cs Begin) - int (count_list cs End)"
proof (induction cs rule: rev_induct)
  case Nil
  then show ?case by (simp add: run_calls_def)
next
  case (snoc x xs)
  note fb = ends_follow_begins_snoc [OF snoc.prems(1)]
  from snoc.IH fb(1) snoc.prems(2) have ih: "activeFetches (run_calls cl xs) =
     activeFetches cl + int (count_list xs Begin) - int (count_list xs End)" by simp
  show ?case
  proof (cases x)
    case Begin
    with ih show ?thesis by (simp add: run_calls_snoc BeginProcess_def)
  next
    case End
    with fb(2) have "count_list xs End < count_list xs Begin" by simp
    with ih End snoc.prems(2) show ?thesis by (simp add: run_calls_snoc EndProcess_def)
  qed
qed

text \<open>
  C4, as stated, fails: the claim lets the N calls of each kind interleave in any order,
  and an \<open>EndProcess\<close> that finds the counter at zero is lost at the floor. A consumer
  that releases its first Event twice and its second Event never makes two calls of each
  kind, \<open>BeginProcess; EndProcess; EndProcess; BeginProcess\<close>, and leaves the counter
  at 1, not 0.
\<close>

theorem C4_any_interleaving_counterexample:
  "count_list [Begin, End, End, Begin] Begin = 2 \<and>
   count_list [Begin, End, End, Begin] End = 2 \<and>
   activeFetches (run_calls (New default_config) [Begin, End, End, Begin]) = 1"
  by (simp add: run_calls_def New_def BeginProcess_def EndProcess_def)

text \<open>
  C4, amended: the counter starts at 0; \<open>BeginProcess\<close> adds one; \<open>EndProcess\<close>
  subtracts one, floored at zero; after any sequence of calls whatever (also one with more
  \<open>EndProcess\<close> than \<open>BeginProcess\<close>) the counter is not negative; and after N calls
  of each kind, interleaved so that every \<open>EndProcess\<close> follows a \<open>BeginProcess\<close> of its
  own, the counter is 0.
\<close>

theorem C4_activeFetches_floor_and_balance:
  "activeFetches (New cf) = 0 \<and>
   activeFetches (BeginProcess cl) = activeFetches cl + 1 \<and>
   (0 \<le> activeFetches cl \<longrightarrow> activeFetches (EndProcess cl) = max 0 (activeFetches cl - 1)) \<and>
   0 \<le> activeFetches (run_calls (New cf) cs) \<and>
   (ends_follow_begins cs \<and> count_list cs Begin = count_list cs End \<longrightarrow>
      activeFetches (run_calls (New cf) cs) = 0)"
proof -
  have zero: "activeFetches (New cf) = 0" by (simp add: New_def)
  have "0 \<le> activeFetches (run_calls (New cf) cs)"
    by (rule run_calls_nonneg) (simp add: zero)
  moreover have "activeFetches (run_calls (New cf) cs) = 0"
    if "ends_follow_begins cs" "count_list cs Begin = count_list cs End"
    using run_calls_exact [OF that(1), of "New cf"] that(2) zero by simp
  ultimately show ?thesis
    using zero by (simp add: BeginProcess_def EndProcess_def)
qed

theorem C4_activeFetches_floor_and_balance_witness:
  "ends_follow_begins [Begin, Begin, End, Begin, End, End] \<and>
   count_list [Begin, Begin, End, Begin, End, End] Begin
     = count_list [Begin, Begin, End, Begin, End, End] End \<and>
   activeFetches (run_calls (New default_config) [Begin, Begin, End, Begin, End, End]) = 0 \<and>
   0 \<le> activeFetches (run_calls (New default_config) [End, End, Begin, End, End])"
proof -
  have h: "ends_follow_begins [Begin, Begin, End, Begin, End, End] \<and>
     count_list [Begin, Begin, End, Begin, End, End] Begin
       = count_list [Begin, Begin, End, Begin, End, End] End"
    by code_simp
  from h C4_activeFetches_floor_and_balance
         [of default_config "New default_config" "[Begin, Begin, End, Begin, End, End]"]
       C4_activeFetches_floor_and_balance
         [of default_config "New default_config" "[End, End, Begin, End, End]"]
  show ?thesis by blast
qed

subsection \<open>Draining\<close>

lemma drain_loop_DeadlineHit_late:
  "exit (drain_loop deadline env k now cl) = DeadlineHit \<Longrightarrow>
   deadline < at (drain_loop deadline env k now cl)"
proof (induction deadline env k now cl rule: drain_loop.induct)
  case (1 deadline env k now cl)
  then show ?case
    by (subst drain_loop.simps, subst (asm) (2) drain_loop.simps) (auto split: if_splits)
qed

lemma drain_loop_never_zero:
  "\<forall>j. activeFetches (client_after env k j cl) \<noteq> 0 \<Longrightarrow> \<forall>j. \<not> ctx_done_during env j \<Longrightarrow>
   exit (drain_loop deadline env k now cl) = DeadlineHit"
proof (induction deadline env k now cl rule: drain_loop.induct)
  case (1 deadline env k now cl)
  from "1.prems"(1) have nz: "activeFetches cl \<noteq> 0"
    by (metis client_after.simps(1))
  show ?case
  proof (cases "now > deadline")
    case True
    with nz show ?thesis by (subst drain_loop.simps) simp
  next
    case False
    have "\<forall>j. activeFetches (client_after env (Suc k) j ((EndProcess ^^ ends_during env k) cl)) \<noteq> 0"
    proof
      fix j
      from "1.prems"(1) have "activeFetches (client_after env k (Suc j) cl) \<noteq> 0" by blast
      then show "activeFetches (client_after env (Suc k) j ((EndProcess ^^ ends_during env k) cl)) \<noteq> 0"
        by simp
    qed
    with False nz "1.prems"(2) "1.IH" show ?thesis by (subst drain_loop.simps) simp
  qed
qed

lemma drain_loop_at_upper:
  "\<forall>j. lateness env j = 0 \<Longrightarrow> now \<le> deadline + pollInterval \<Longrightarrow>
   at (drain_loop deadline env k now cl) \<le> deadline + pollInterval"
proof (induction deadline env k now cl rule: drain_loop.induct)
  case (1 deadline env k now cl)
  then show ?case
    by (subst drain_loop.simps) (auto simp: pollInterval_def Millisecond_def)
qed

text \<open>
  The loop reads the counter once per pass, and every pass but the last sleeps at least
  one polling interval towards the deadline.
\<close>

lemma drain_loop_polls:
  "polls (drain_loop deadline env k now cl) \<le>
     k + (if now > deadline then 1 else nat ((deadline - now) div pollInterval) + 2)"
proof (induction deadline env k now cl rule: drain_loop.induct)
  case (1 deadline env k now cl)
  show ?case
  proof (cases "activeFetches cl = 0 \<or> now > deadline \<or> ctx_done_during env k")
    case True
    then show ?thesis by (subst drain_loop.simps) auto
  next
    case False
    let ?now' = "now + pollInterval + int (lateness env k)"
    let ?cl' = "(EndProcess ^^ ends_during env k) cl"
    from False have le: "now \<le> deadline" by simp
    from False have eq: "drain_loop deadline env k now cl = drain_loop deadline env (Suc k) ?now' ?cl'"
      by (subst drain_loop.simps) simp
    from False "1.IH" have ih: "polls (drain_loop deadline env (Suc k) ?now' ?cl') \<le>
       Suc k + (if ?now' > deadline then 1 else nat ((deadline - ?now') div pollInterval) + 2)"
      by simp
    show ?thesis
    proof (cases "?now' > deadline")
      case True
      with ih eq le show ?thesis by simp
    next
      case F2: False
      have pos: "0 < pollInterval" by (simp add: pollInterval_def Millisecond_def)
      from F2 have "deadline - ?now' \<le> (deadline - now) - pollInterval" by simp
      then have "(deadline - ?now') div pollInterval \<le> ((deadline - now) - pollInterval) div pollInterval"
        using pos by (intro zdiv_mono1) auto
      also have "\<dots> = (deadline - now) div pollInterval - 1"
        using div_add_self2 [of pollInterval "deadline - now - pollInterval"] pos by simp
      finally have a: "(deadline - ?now') div pollInterval \<le> (deadline - now) div pollInterval - 1" .
      from F2 pos have "0 \<le> (deadline - ?now') div pollInterval"
        by (simp add: pos_imp_zdiv_nonneg_iff)
      with a have "nat ((deadline - ?now') div pollInterval) + 1 \<le> nat ((deadline - now) div pollInterval)"
        by linarith
      with ih eq le F2 show ?thesis by simp
    qed
  qed
qed

lemma client_after_stuck: "client_after stuck k j cl = cl"
  by (induction j arbitrary: k) (simp_all add: stuck_def)

text \<open>
  C7, as stated, fails. With the default drain timeout of 3 s, a consumer that never calls
  \<open>EndProcess\<close> and timers that fire exactly on time, \<open>drain\<close> entered at time 0 leaves
  by the deadline check at 3.1 s: the poll at 3.0 s is not \<^emph>\<open>after\<close> the deadline, so the
  loop sleeps once more. The return is later than the timeout, not at or before it.
\<close>

theorem C7_drain_returns_after_timeout_counterexample:
  "DrainTimeout (cfg ((New default_config)\<lparr>activeFetches := 1\<rparr>)) = 3000 * Millisecond \<and>
   exit (drain stuck 0 ((New default_config)\<lparr>activeFetches := 1\<rparr>)) = DeadlineHit \<and>
   at (drain stuck 0 ((New default_config)\<lparr>activeFetches := 1\<rparr>)) = 3100 * Millisecond"
  by code_simp

text \<open>
  C7, amended: \<open>drain\<close> always terminates, after at most \<open>timeout div 100 ms + 2\<close> reads of
  the counter, which are at least 100 ms apart. If the counter never reaches zero and the
  context is not cancelled, it returns by the deadline check, at the first poll made after
  the drain timeout has elapsed: later than the timeout, and no more than one polling
  interval (100 ms) later when the timers fire on time. A consumer that never calls
  \<open>EndProcess\<close> therefore blocks the engine for the drain timeout and less than one polling
  interval more.
\<close>

theorem C7_drain_bounded_past_deadline:
  "polls (drain env now cl) \<le> nat (DrainTimeout (cfg cl) div pollInterval) + 2 \<and>
   (0 < DrainTimeout (cfg cl) \<and> (\<forall>j. activeFetches (client_after env 0 j cl) \<noteq> 0) \<and>
    (\<forall>j. \<not> ctx_done_during env j) \<longrightarrow>
      exit (drain env now cl) = DeadlineHit \<and>
      now + DrainTimeout (cfg cl) < at (drain env now cl) \<and>
      ((\<forall>j. lateness env j = 0) \<longrightarrow>
         at (drain env now cl) \<le> now + DrainTimeout (cfg cl) + pollInterval))"
proof -
  have p: "polls (drain env now cl) \<le> nat (DrainTimeout (cfg cl) div pollInterval) + 2"
  proof (cases "DrainTimeout (cfg cl) \<le> 0")
    case True
    then show ?thesis by (simp add: drain_def)
  next
    case False
    with drain_loop_polls [of "now + DrainTimeout (cfg cl)" env 0 now cl]
    show ?thesis by (simp add: drain_def)
  qed
  have q: "exit (drain env now cl) = DeadlineHit \<and>
      now + DrainTimeout (cfg cl) < at (drain env now cl) \<and>
      ((\<forall>j. lateness env j = 0) \<longrightarrow>
         at (drain env now cl) \<le> now + DrainTimeout (cfg cl) + pollInterval)"
    if pos: "0 < DrainTimeout (cfg cl)"
      and nz: "\<forall>j. activeFetches (client_after env 0 j cl) \<noteq> 0"
      and nc: "\<forall>j. \<not> ctx_done_during env j"
  proof -
    let ?d = "now + DrainTimeout (cfg cl)"
    from pos have eq: "drain env now cl = drain_loop ?d env 0 now cl"
      by (simp add: drain_def)
    have e: "exit (drain_loop ?d env 0 now cl) = DeadlineHit"
      by (rule drain_loop_never_zero [OF nz nc])
    have l: "?d < at (drain_loop ?d env 0 now cl)"
      by (rule drain_loop_DeadlineHit_late [OF e])
    have u: "at (drain_loop ?d env 0 now cl) \<le> ?d + pollInterval" if "\<forall>j. lateness env j = 0"
      using drain_loop_at_upper [OF that, of now ?d 0 cl] pos
      by (simp add: pollInterval_def Millisecond_def)
    from e l u show ?thesis by (simp add: eq)
  qed
  from p q show ?thesis by blast
qed

theorem C7_drain_bounded_past_deadline_witness:
  "0 < DrainTimeout (cfg ((New default_config)\<lparr>activeFetches := 2\<rparr>)) \<and>
   (\<forall>j. activeFetches (client_after stuck 0 j ((New default_config)\<lparr>activeFetches := 2\<rparr>)) \<noteq> 0) \<and>
   (\<forall>j. \<not> ctx_done_during stuck j) \<and> (\<forall>j. lateness stuck j = 0) \<and>
   exit (drain stuck 5 ((New default_config)\<lparr>activeFetches := 2\<rparr>)) = DeadlineHit \<and>
   5 + DrainTimeout (cfg ((New default_config)\<lparr>activeFetches := 2\<rparr>))
     < at (drain stuck 5 ((New default_config)\<lparr>activeFetches := 2\<rparr>)) \<and>
   at (drain stuck 5 ((New default_config)\<lparr>activeFetches := 2\<rparr>))
     \<le> 5 + DrainTimeout (cfg ((New default_config)\<lparr>activeFetches := 2\<rparr>)) + pollInterval"
proof -
  let ?cl = "(New default_config)\<lparr>activeFetches := 2\<rparr>"
  have h1: "0 < DrainTimeout (cfg ?cl)"
    by (simp add: New_def default_config_def Second_def)
  have h2: "\<forall>j. activeFetches (client_after stuck 0 j ?cl) \<noteq> 0"
    by (simp add: client_after_stuck)
  have h3: "\<forall>j. \<not> ctx_done_during stuck j" by (simp add: stuck_def)
  have h4: "\<forall>j. lateness stuck j = 0" by (simp add: stuck_def)
  from h1 h2 h3 h4 C7_drain_bounded_past_deadline [of stuck 5 ?cl]
  show ?thesis by blast
qed

text \<open>
  C9: with a drain timeout of zero or less, \<open>drain\<close> returns at once, at the time of the
  call and without reading the counter or sleeping, whatever the counter holds; the
  client is left as it was.
\<close>

theorem C9_drain_skipped_without_timeout:
  "DrainTimeout (cfg cl) \<le> 0 \<Longrightarrow>
   drain env now cl = \<lparr>exit = NoWait, at = now, polls = 0, client = cl\<rparr>"
  by (simp add: drain_def)

theorem C9_drain_skipped_without_timeout_witness:
  "DrainTimeout (cfg ((New (default_config\<lparr>DrainTimeout := 0\<rparr>))\<lparr>activeFetches := 3\<rparr>)) \<le> 0 \<and>
   0 < activeFetches ((New (default_config\<lparr>DrainTimeout := 0\<rparr>))\<lparr>activeFetches := 3\<rparr>) \<and>
   drain stuck 7 ((New (default_config\<lparr>DrainTimeout := 0\<rparr>))\<lparr>activeFetches := 3\<rparr>)
     = \<lparr>exit = NoWait, at = 7, polls = 0,
        client = (New (default_config\<lparr>DrainTimeout := 0\<rparr>))\<lparr>activeFetches := 3\<rparr>\<rparr>"
proof -
  let ?cl = "(New (default_config\<lparr>DrainTimeout := 0\<rparr>))\<lparr>activeFetches := 3\<rparr>"
  have h: "DrainTimeout (cfg ?cl) \<le> 0" by (simp add: New_def)
  have a: "0 < activeFetches ?cl" by simp
  from h a C9_drain_skipped_without_timeout [OF h, of stuck 7] show ?thesis by blast
qed

subsection \<open>Connecting\<close>

lemma first_failure_prefix: "prefix (fst (first_failure steps)) (map fst steps)"
  by (induction steps rule: first_failure.induct) simp_all

text \<open>
  C6: on a client that is neither closed nor connected, \<open>Connect\<close> sends the dial, the
  STARTTLS upgrade if it is configured (and the dial was not a TLS dial), the login and the
  mailbox selection in that order and stops at the first that fails. When none fails the
  session is the dialled connection. When one fails nothing later is sent, the connection
  is logged out if the dial had yielded one, the client is left as it was (its session
  absent) and the error returned wraps the cause under the name of the failing phase.
\<close>

theorem C6_Connect_stops_at_first_failing_phase:
  "\<not> closed cl \<Longrightarrow> c cl = None \<Longrightarrow>
   prefix (fst (first_failure (connect_steps cl net))) (map fst (connect_steps cl net)) \<and>
   Connect net cl =
     (case first_failure (connect_steps cl net) of
        (sent, None) \<Rightarrow> (cl\<lparr>c := Some (Conn (handle net))\<rparr>, None, sent)
      | (sent, Some (ph, e)) \<Rightarrow>
          (cl, Some (Errorf ph e), sent @ (if 1 < length sent then [DoLogout] else [])))"
  by (simp add: first_failure_prefix)
     (auto simp: Connect_def Connect_login_def connect_steps_def split: option.splits)

theorem C6_Connect_stops_at_first_failing_phase_witness:
  "\<not> closed (New (default_config\<lparr>UseTLS := False, StartTLS := True\<rparr>)) \<and>
   c (New (default_config\<lparr>UseTLS := False, StartTLS := True\<rparr>)) = None \<and>
   Connect (refused\<lparr>dial_err := None, login_err := Some (ErrorNew ''bad credentials'')\<rparr>)
       (New (default_config\<lparr>UseTLS := False, StartTLS := True\<rparr>))
     = (New (default_config\<lparr>UseTLS := False, StartTLS := True\<rparr>),
        Some (Errorf ''login'' (ErrorNew ''bad credentials'')),
        [DoDial, DoStartTLS, DoLogin, DoLogout])"
proof -
  let ?cl = "New (default_config\<lparr>UseTLS := False, StartTLS := True\<rparr>)"
  let ?net = "refused\<lparr>dial_err := None, login_err := Some (ErrorNew ''bad credentials'')\<rparr>"
  have h1: "\<not> closed ?cl" and h2: "c ?cl = None" by (simp_all add: New_def)
  have ff: "first_failure (connect_steps ?cl ?net)
      = ([DoDial, DoStartTLS, DoLogin], Some (''login'', ErrorNew ''bad credentials''))"
    by (simp add: connect_steps_def New_def refused_def)
  from C6_Connect_stops_at_first_failing_phase [OF h1 h2, of ?net]
  have "Connect ?net ?cl =
     (case first_failure (connect_steps ?cl ?net) of
        (sent, None) \<Rightarrow> (?cl\<lparr>c := Some (Conn (handle ?net))\<rparr>, None, sent)
      | (sent, Some (ph, e)) \<Rightarrow>
          (?cl, Some (Errorf ph e), sent @ (if 1 < length sent then [DoLogout] else [])))"
    by (rule conjunct2)
  then have "Connect ?net ?cl = (?cl, Some (Errorf ''login'' (ErrorNew ''bad credentials'')),
        [DoDial, DoStartTLS, DoLogin, DoLogout])"
    by (simp only: ff) simp
  with h1 h2 show ?thesis by blast
qed

subsection \<open>Reconnect backoff\<close>

lemma Connect_error_keeps_client:
  "fst (snd (Connect net cl)) \<noteq> None \<Longrightarrow> fst (Connect net cl) = cl"
  by (auto simp: Connect_def Connect_login_def split: option.splits if_splits)

lemma IdleLoop_connect_sleeps:
  "k \<le> 5 \<Longrightarrow> \<forall>p \<in> set ps. ctx_err p = None \<and> fst (snd (Connect (network p) cl)) \<noteq> None \<Longrightarrow>
   fst (snd (IdleLoop_connect (2 ^ k * Second) ps cl))
     = map (\<lambda>i. 2 ^ min (k + i) 5 * Second) [0 ..< length ps]"
proof (induction ps arbitrary: k)
  case Nil
  then show ?case by simp
next
  case (Cons p ps)
  from Cons.prems(2) have ctx: "ctx_err p = None"
    and err: "fst (snd (Connect (network p) cl)) \<noteq> None" by simp_all
  from err obtain e sent where conn: "Connect (network p) cl = (cl, Some e, sent)"
    using Connect_error_keeps_client [OF err] by (cases "Connect (network p) cl") auto
  define b' where "b' = 2 ^ min (Suc k) 5 * Second"
  have next_backoff: "(if (2::int) ^ k * Second < 30 * Second then 2 ^ k * Second * 2 else 2 ^ k * Second) = b'"
  proof (cases "k = 5")
    case True
    then show ?thesis by (simp add: Second_def b'_def)
  next
    case False
    with Cons.prems(1) have "k < 5" by simp
    then have "(2::int) ^ k \<le> 2 ^ 4" by (intro power_increasing) simp_all
    with \<open>k < 5\<close> show ?thesis by (simp add: Second_def min_def b'_def)
  qed
  have ih: "fst (snd (IdleLoop_connect b' ps cl))
     = map (\<lambda>i. 2 ^ min (min (Suc k) 5 + i) 5 * Second) [0 ..< length ps]"
    unfolding b'_def using Cons.prems(2) by (intro Cons.IH) simp_all
  obtain cl'' slept b ex where rec: "IdleLoop_connect b' ps cl = (cl'', slept, b, ex)"
    by (cases "IdleLoop_connect b' ps cl") auto
  from ih rec have slept: "slept = map (\<lambda>i. 2 ^ min (min (Suc k) 5 + i) 5 * Second) [0 ..< length ps]"
    by simp
  have step: "IdleLoop_connect (2 ^ k * Second) (p # ps) cl = (cl'', 2 ^ k * Second # slept, b, ex)"
    by (simp add: ctx conn next_backoff rec)
  have same: "min (min (Suc k) 5 + i) 5 = min (k + Suc i) 5" for i
    by simp
  have shift: "map (\<lambda>i. 2 ^ min (k + i) 5 * Second) [0 ..< length (p # ps)]
     = 2 ^ min k 5 * Second # map (\<lambda>i. (2::int) ^ min (k + Suc i) 5 * Second) [0 ..< length ps]"
    by (simp add: upt_conv_Cons map_Suc_upt [symmetric] del: upt_Suc)
  from Cons.prems(1) have "min k 5 = k" by simp
  with step slept shift show ?case by (simp only: same fst_conv snd_conv)
qed

text \<open>
  C3, as stated, fails: \<open>backoff\<close> is doubled whenever it is below 30 s, so 16 s becomes
  32 s and stays there. Six failed connection attempts in a row sleep 1, 2, 4, 8, 16 and
  32 seconds; the sixth sleep is 32 s, not 30 s.
\<close>

theorem C3_sixth_sleep_is_32_counterexample:
  "fst (snd (IdleLoop_connect Second (replicate 6 \<lparr>ctx_err = None, network = refused\<rparr>) (New default_config)))
     = [1 * Second, 2 * Second, 4 * Second, 8 * Second, 16 * Second, 32 * Second]"
  by code_simp

text \<open>
  C3, amended: in every run of consecutive \<open>Connect\<close> failures of the reconnect loop the
  sleep before the first retry is 1 s and each further failed attempt doubles it as long as
  it is below 30 s, so that it is capped at 32 s: failed attempts 1 to 6 sleep 1, 2, 4, 8,
  16 and 32 seconds, and every later one sleeps 32 seconds.
\<close>

theorem C3_backoff_doubles_to_32:
  "\<forall>p \<in> set ps. ctx_err p = None \<and> fst (snd (Connect (network p) cl)) \<noteq> None \<Longrightarrow>
   fst (snd (IdleLoop_connect Second ps cl))
     = map (\<lambda>i. 2 ^ min i 5 * Second) [0 ..< length ps]"
  using IdleLoop_connect_sleeps [of 0 ps cl] by simp

theorem C3_backoff_doubles_to_32_witness:
  "fst (snd (Connect refused (New default_config))) \<noteq> None \<and>
   fst (snd (IdleLoop_connect Second (replicate 8 \<lparr>ctx_err = None, network = refused\<rparr>) (New default_config)))
     = [1 * Second, 2 * Second, 4 * Second, 8 * Second, 16 * Second, 32 * Second,
        32 * Second, 32 * Second]"
proof -
  let ?ps = "replicate 8 \<lparr>ctx_err = None, network = refused\<rparr>"
  have h: "\<forall>p \<in> set ?ps. ctx_err p = None \<and> fst (snd (Connect (network p) (New default_config))) \<noteq> None"
    by (simp add: Connect_def New_def default_config_def refused_def)
  have m: "map (\<lambda>i. 2 ^ min i 5 * Second) [0 ..< length ?ps]
     = [1 * Second, 2 * Second, 4 * Second, 8 * Second, 16 * Second, 32 * Second,
        32 * Second, 32 * Second]"
    by code_simp
  from C3_backoff_doubles_to_32 [OF h] m have
    "fst (snd (IdleLoop_connect Second ?ps (New default_config)))
       = [1 * Second, 2 * Second, 4 * Second, 8 * Second, 16 * Second, 32 * Second,
          32 * Second, 32 * Second]"
    by (rule trans)
  moreover have "fst (snd (Connect refused (New default_config))) \<noteq> None"
    by (simp add: Connect_def New_def default_config_def refused_def)
  ultimately show ?thesis by simp
qed

subsection \<open>Serialised commands and their statistics\<close>

text \<open>
  C5, as stated, fails: a call of \<open>Exec\<close> made while no session is live returns the
  no-connection error before \<open>updateStats\<close> is reached, and records nothing under the
  operation's name.
\<close>

theorem C5_no_session_records_nothing_counterexample:
  "snd (Exec (New default_config) ''fetch-uids''
          \<lparr>started = 0, finished = 5 * Millisecond, fired = OpReturned None\<rparr>)
     = Some (ErrorNew ''no connection'') \<and>
   opStats (fst (Exec (New default_config) ''fetch-uids''
          \<lparr>started = 0, finished = 5 * Millisecond, fired = OpReturned None\<rparr>)) ''fetch-uids''
     = None"
  by (simp add: Exec_def New_def)

text \<open>
  C5, amended: a call of \<open>Exec\<close> made while no session is live returns the no-connection
  error and leaves the client, statistics included, as it was. Every call made while a
  session is live adds to \<open>opStats\<close> under the operation's name, whatever the outcome
  (success, error of the operation, or the context done first by timeout or
  cancellation): one to the count, the time from the start of the call as last duration
  and into the total duration, and either one to the error count with the error's text, or
  an empty last error on success. The statistics of the other operations are unchanged.
\<close>

theorem C5_Exec_records_when_session_live:
  "(c cl = None \<longrightarrow> Exec cl op run = (cl, Some (ErrorNew ''no connection''))) \<and>
   (c cl \<noteq> None \<longrightarrow>
      snd (Exec cl op run) =
        (case fired run of
           OpReturned e \<Rightarrow> e
         | ContextDone ce \<Rightarrow> Some (Errorf (''op '' @ op @ '' timeout or canceled'') ce)) \<and>
      opStats (fst (Exec cl op run)) op =
        (let old = (case opStats cl op of
                      None \<Rightarrow> \<lparr>Count = 0, Errors = 0, LastDuration = 0, TotalDuration = 0,
                                LastError = ''''\<rparr>
                    | Some s \<Rightarrow> s)
         in Some \<lparr>Count = Count old + 1,
                  Errors = Errors old + (if snd (Exec cl op run) = None then 0 else 1),
                  LastDuration = finished run - started run,
                  TotalDuration = TotalDuration old + (finished run - started run),
                  LastError = (case snd (Exec cl op run) of None \<Rightarrow> '''' | Some e \<Rightarrow> Error e)\<rparr>) \<and>
      (\<forall>op'. op' \<noteq> op \<longrightarrow> opStats (fst (Exec cl op run)) op' = opStats cl op'))"
  by (cases "fired run")
     (auto simp: Exec_def updateStats_def Let_def split: option.splits)

theorem C5_Exec_records_when_session_live_witness:
  "c ((New default_config)\<lparr>c := Some (Conn 1)\<rparr>) \<noteq> None \<and>
   snd (Exec ((New default_config)\<lparr>c := Some (Conn 1)\<rparr>) ''fetch-uids''
          \<lparr>started = 2 * Second, finished = 17 * Second,
           fired = ContextDone (ErrorNew ''context deadline exceeded'')\<rparr>)
     = Some (Errorf ''op fetch-uids timeout or canceled'' (ErrorNew ''context deadline exceeded'')) \<and>
   opStats (fst (Exec ((New default_config)\<lparr>c := Some (Conn 1)\<rparr>) ''fetch-uids''
          \<lparr>started = 2 * Second, finished = 17 * Second,
           fired = ContextDone (ErrorNew ''context deadline exceeded'')\<rparr>)) ''fetch-uids''
     = Some \<lparr>Count = 1, Errors = 1, LastDuration = 15 * Second, TotalDuration = 15 * Second,
         LastError = ''op fetch-uids timeout or canceled: context deadline exceeded''\<rparr>"
proof -
  let ?cl = "(New default_config)\<lparr>c := Some (Conn 1)\<rparr>"
  let ?run = "\<lparr>started = 2 * Second, finished = 17 * Second,
           fired = ContextDone (ErrorNew ''context deadline exceeded'')\<rparr>"
  have h: "c ?cl \<noteq> None" by simp
  have o: "opStats ?cl ''fetch-uids'' = None" by (simp add: New_def)
  note t = C5_Exec_records_when_session_live [of ?cl "''fetch-uids''" ?run]
  from t h have e: "snd (Exec ?cl ''fetch-uids'' ?run)
     = Some (Errorf ''op fetch-uids timeout or canceled'' (ErrorNew ''context deadline exceeded''))"
    by simp
  from t h have "opStats (fst (Exec ?cl ''fetch-uids'' ?run)) ''fetch-uids'' =
        (let old = (case opStats ?cl ''fetch-uids'' of
                      None \<Rightarrow> \<lparr>Count = 0, Errors = 0, LastDuration = 0, TotalDuration = 0,
                                LastError = ''''\<rparr>
                    | Some s \<Rightarrow> s)
         in Some \<lparr>Count = Count old + 1,
                  Errors = Errors old + (if snd (Exec ?cl ''fetch-uids'' ?run) = None then 0 else 1),
                  LastDuration = finished ?run - started ?run,
                  TotalDuration = TotalDuration old + (finished ?run - started ?run),
                  LastError = (case snd (Exec ?cl ''fetch-uids'' ?run) of None \<Rightarrow> '''' | Some e \<Rightarrow> Error e)\<rparr>)"
    by blast
  then have "opStats (fst (Exec ?cl ''fetch-uids'' ?run)) ''fetch-uids''
     = Some \<lparr>Count = 1, Errors = 1, LastDuration = 15 * Second, TotalDuration = 15 * Second,
         LastError = ''op fetch-uids timeout or canceled: context deadline exceeded''\<rparr>"
    by (simp only: e o) (simp add: Second_def)
  with h e show ?thesis by blast
qed

subsection \<open>Emitting the new messages\<close>

lemma emit_all_taken:
  "\<forall>j. taken j \<Longrightarrow>
   emit taken k uids cl = (cl\<lparr>activeFetches := activeFetches cl + int (length uids)\<rparr>, map Event uids)"
proof (induction uids arbitrary: k cl)
  case Nil
  then show ?case by simp
next
  case (Cons uid uids)
  then show ?case by (simp add: BeginProcess_def)
qed

lemma unat_succ_below: "(b::uint32) < n \<Longrightarrow> unat (b + 1) = Suc (unat b)"
  by unat_arith

lemma seq_uids_range:
  assumes "b < n" "unat n \<le> length mbox"
  shows "seq_uids mbox (b + 1) n = map (\<lambda>i. mbox ! i) [unat b ..< unat n]"
proof -
  from assms(1) have lt: "unat b < unat n" by (simp add: word_less_nat_alt)
  have "seq_uids mbox (b + 1) n = take (unat n - unat b) (drop (unat b) mbox)"
    by (simp add: seq_uids_def unat_succ_below [OF assms(1)])
  also have "\<dots> = map (\<lambda>i. mbox ! i) [unat b ..< unat n]"
  proof (rule nth_equalityI)
    show "length (take (unat n - unat b) (drop (unat b) mbox)) = length (map (\<lambda>i. mbox ! i) [unat b ..< unat n])"
      using assms(2) lt by simp
  next
    fix i assume "i < length (take (unat n - unat b) (drop (unat b) mbox))"
    then have i: "i < unat n - unat b" by simp
    with assms(2) show "take (unat n - unat b) (drop (unat b) mbox) ! i = map (\<lambda>i. mbox ! i) [unat b ..< unat n] ! i"
      by simp
  qed
  finally show ?thesis .
qed

lemma seq_uids_ascending:
  "sorted_wrt (<) mbox \<Longrightarrow> sorted_wrt (<) (seq_uids mbox lo hi)"
  unfolding seq_uids_def by (intro sorted_wrt_take sorted_wrt_drop)

lemma handleNewMessages_fetch_ok:
  assumes "baseline < newTotal"
    and "idling \<longrightarrow> \<not> ctx_done_at_entry env \<and> idle_exit_err env = None"
    and "c cl \<noteq> None"
    and "fired (exec_run env) = OpReturned None"
    and "\<forall>k. push_taken env k"
  shows "ret (handleNewMessages env idling newTotal baseline cl)"
    and "new_baseline (handleNewMessages env idling newTotal baseline cl) = newTotal"
    and "emitted (handleNewMessages env idling newTotal baseline cl)
           = map Event (fetch_reply env (baseline + 1) newTotal)"
    and "activeFetches (after (handleNewMessages env idling newTotal baseline cl))
           = activeFetches cl + int (length (fetch_reply env (baseline + 1) newTotal))"
    and "effects (handleNewMessages env idling newTotal baseline cl)
           = (if idling then [StopClosed] else []) @ [FetchUids (baseline + 1) newTotal]"
proof -
  from assms(3) obtain conn where conn: "c cl = Some conn" by auto
  have ex: "Exec cl ''fetch-uids'' (exec_run env)
      = (updateStats cl ''fetch-uids'' (finished (exec_run env) - started (exec_run env)) None, None)"
    by (simp add: Exec_def conn assms(4))
  have af: "activeFetches (updateStats cl op d e) = activeFetches cl" for op d e
    by (simp add: updateStats_def Let_def)
  from assms(1) have nle: "\<not> newTotal \<le> baseline" by simp
  from assms(2) have idle: "(if idling then idle_exit_err env else None) = None"
    and entry: "(idling \<and> ctx_done_at_entry env) = False" by auto
  note em = emit_all_taken [OF assms(5)]
  have r: "handleNewMessages env idling newTotal baseline cl
     = \<lparr>ret = True, new_baseline = newTotal,
        after = (updateStats cl ''fetch-uids'' (finished (exec_run env) - started (exec_run env)) None)
                  \<lparr>activeFetches := activeFetches cl
                      + int (length (fetch_reply env (baseline + 1) newTotal))\<rparr>,
        emitted = map Event (fetch_reply env (baseline + 1) newTotal),
        effects = (if idling then [StopClosed] else []) @ [FetchUids (baseline + 1) newTotal]\<rparr>"
    unfolding handleNewMessages_def by (simp add: nle entry idle ex em af conn Let_def)
  show "ret (handleNewMessages env idling newTotal baseline cl)"
    and "new_baseline (handleNewMessages env idling newTotal baseline cl) = newTotal"
    and "emitted (handleNewMessages env idling newTotal baseline cl)
           = map Event (fetch_reply env (baseline + 1) newTotal)"
    and "activeFetches (after (handleNewMessages env idling newTotal baseline cl))
           = activeFetches cl + int (length (fetch_reply env (baseline + 1) newTotal))"
    and "effects (handleNewMessages env idling newTotal baseline cl)
           = (if idling then [StopClosed] else []) @ [FetchUids (baseline + 1) newTotal]"
    by (simp_all add: r)
qed

lemma word_of_nat_ascending:
  "b \<le> 2 ^ 32 \<Longrightarrow> sorted_wrt (<) (map (word_of_nat :: nat \<Rightarrow> uint32) [a ..< b])"
proof -
  assume b: "b \<le> 2 ^ 32"
  have "sorted_wrt (\<lambda>x y. (word_of_nat x :: uint32) < word_of_nat y) [a ..< b]"
  proof (rule sorted_wrt_mono_rel [of _ "(<)"])
    fix x y assume "x \<in> set [a ..< b]" "y \<in> set [a ..< b]" "x < y"
    with b show "(word_of_nat x :: uint32) < word_of_nat y"
      by (simp add: of_nat_word_less_iff take_bit_nat_eq_self)
  next
    show "sorted_wrt (<) [a ..< b]" by (rule sorted_wrt_upt)
  qed
  then show ?thesis by (simp add: sorted_wrt_map)
qed

lemma mailbox43_ascending: "sorted_wrt (<) mailbox43"
  unfolding mailbox43_def by (rule word_of_nat_ascending) simp

text \<open>
  C1, as stated, fails: not every growth-detection cycle emits an Event for each message of
  the range. With baseline 42 and an observed count of 43 on a live session, a fetch that
  ends with the context's deadline emits no Event at all, and the baseline becomes 43.
\<close>

theorem C1_failed_fetch_emits_nothing_counterexample:
  "emitted (handleNewMessages
      ((smooth mailbox43)\<lparr>exec_run := \<lparr>started = 0, finished = 15 * Second,
           fired = ContextDone (ErrorNew ''context deadline exceeded'')\<rparr>\<rparr>)
      True 43 42 ((New default_config)\<lparr>c := Some (Conn 1)\<rparr>)) = [] \<and>
   new_baseline (handleNewMessages
      ((smooth mailbox43)\<lparr>exec_run := \<lparr>started = 0, finished = 15 * Second,
           fired = ContextDone (ErrorNew ''context deadline exceeded'')\<rparr>\<rparr>)
      True 43 42 ((New default_config)\<lparr>c := Some (Conn 1)\<rparr>)) = 43"
  by (simp add: handleNewMessages_def smooth_def Exec_def Let_def)

text \<open>
  C1, amended: take a growth-detection cycle with baseline b and observed count n > b in
  which the long poll, if one is running, ends without error and the context is not done,
  the fetch of the range succeeds on a live session, and every push onto the event channel
  is taken. Then the cycle requests the sequence numbers b+1 to n and emits exactly one
  Event per message of the reply, in the order of the reply. With a server that replies
  in full and in order from a mailbox of at least n messages, that is one Event for each
  message of the half-open range (b, n], carrying its UID: n - b Events, strictly
  increasing when the mailbox's UIDs are (as IMAP prescribes). The counter of in-flight
  work has grown by n - b, and the baseline then equals n. For baseline 42 and observed
  count 43 exactly one Event is emitted and the baseline becomes 43.
\<close>

theorem C1_one_event_per_new_message:
  assumes "baseline < newTotal"
    and "idling \<longrightarrow> \<not> ctx_done_at_entry env \<and> idle_exit_err env = None"
    and "c cl \<noteq> None"
    and "fired (exec_run env) = OpReturned None"
    and "\<forall>k. push_taken env k"
    and "fetch_reply env = seq_uids mbox"
    and "unat newTotal \<le> length mbox"
    and "sorted_wrt (<) mbox"
  shows "ret (handleNewMessages env idling newTotal baseline cl) \<and>
     FetchUids (baseline + 1) newTotal \<in> set (effects (handleNewMessages env idling newTotal baseline cl)) \<and>
     map Event.UID (emitted (handleNewMessages env idling newTotal baseline cl))
       = map (\<lambda>i. mbox ! i) [unat baseline ..< unat newTotal] \<and>
     length (emitted (handleNewMessages env idling newTotal baseline cl))
       = unat newTotal - unat baseline \<and>
     sorted_wrt (<) (map Event.UID (emitted (handleNewMessages env idling newTotal baseline cl))) \<and>
     activeFetches (after (handleNewMessages env idling newTotal baseline cl))
       = activeFetches cl + (int (unat newTotal) - int (unat baseline)) \<and>
     new_baseline (handleNewMessages env idling newTotal baseline cl) = newTotal"
proof -
  let ?r = "handleNewMessages env idling newTotal baseline cl"
  note ok = handleNewMessages_fetch_ok [OF assms(1-5)]
  have uid: "map Event.UID (map Event us) = us" for us by (induction us) simp_all
  have e: "map Event.UID (emitted ?r) = seq_uids mbox (baseline + 1) newTotal"
    by (simp only: ok(3) assms(6) uid)
  have rng: "seq_uids mbox (baseline + 1) newTotal = map (\<lambda>i. mbox ! i) [unat baseline ..< unat newTotal]"
    by (rule seq_uids_range [OF assms(1) assms(7)])
  from assms(1) have lt: "unat baseline < unat newTotal" by (simp add: word_less_nat_alt)
  have len: "length (emitted ?r) = unat newTotal - unat baseline"
    by (simp add: ok(3) assms(6) rng)
  have asc: "sorted_wrt (<) (map Event.UID (emitted ?r))"
    unfolding e by (rule seq_uids_ascending [OF assms(8)])
  have act: "activeFetches (after ?r) = activeFetches cl + (int (unat newTotal) - int (unat baseline))"
    using lt by (simp add: ok(4) assms(6) rng)
  have req: "FetchUids (baseline + 1) newTotal \<in> set (effects ?r)"
    by (simp add: ok(5))
  from ok(1) req e rng len asc act ok(2) show ?thesis by simp
qed

theorem C1_one_event_per_new_message_witness:
  "(42::uint32) < 43 \<and> unat (43::uint32) \<le> length mailbox43 \<and> sorted_wrt (<) mailbox43 \<and>
   map Event.UID (emitted (handleNewMessages (smooth mailbox43) True 43 42
       ((New default_config)\<lparr>c := Some (Conn 1)\<rparr>))) = [1043] \<and>
   length (emitted (handleNewMessages (smooth mailbox43) True 43 42
       ((New default_config)\<lparr>c := Some (Conn 1)\<rparr>))) = 1 \<and>
   new_baseline (handleNewMessages (smooth mailbox43) True 43 42
       ((New default_config)\<lparr>c := Some (Conn 1)\<rparr>)) = 43"
proof -
  let ?cl = "(New default_config)\<lparr>c := Some (Conn 1)\<rparr>"
  let ?r = "handleNewMessages (smooth mailbox43) True 43 42 ?cl"
  have h1: "(42::uint32) < 43" by simp
  have h2: "True \<longrightarrow> \<not> ctx_done_at_entry (smooth mailbox43) \<and> idle_exit_err (smooth mailbox43) = None"
    by (simp add: smooth_def)
  have h3: "c ?cl \<noteq> None" by simp
  have h4: "fired (exec_run (smooth mailbox43)) = OpReturned None" by (simp add: smooth_def)
  have h5: "\<forall>k. push_taken (smooth mailbox43) k" by (simp add: smooth_def)
  have h6: "fetch_reply (smooth mailbox43) = seq_uids mailbox43" by (simp add: smooth_def)
  have h7: "unat (43::uint32) \<le> length mailbox43" by (simp add: mailbox43_def)
  note h8 = mailbox43_ascending
  have nth: "map (\<lambda>i. mailbox43 ! i) [unat (42::uint32) ..< unat (43::uint32)] = [1043]"
    by (simp add: mailbox43_def)
  have one: "unat (43::uint32) - unat (42::uint32) = 1" by simp
  from C1_one_event_per_new_message [OF h1 h2 h3 h4 h5 h6 h7 h8]
  have "map Event.UID (emitted ?r) = map (\<lambda>i. mailbox43 ! i) [unat (42::uint32) ..< unat (43::uint32)]"
    and "length (emitted ?r) = unat (43::uint32) - unat (42::uint32)"
    and "new_baseline ?r = 43"
    by blast+
  then have "map Event.UID (emitted ?r) = [1043]" and "length (emitted ?r) = 1" and "new_baseline ?r = 43"
    by (simp_all only: nth one)
  with h1 h7 h8 show ?thesis by blast
qed

text \<open>
  C2, as stated, fails: the baseline is assigned after the fetch whether the fetch
  succeeded or not. With baseline 10, an observed count of 12 and a fetch that returns an
  error, the baseline is 12 afterwards, and the next cycle that observes 12 messages finds
  no growth: it fetches nothing and emits nothing.
\<close>

theorem C2_baseline_advances_on_failed_fetch_counterexample:
  "new_baseline (handleNewMessages
      ((smooth mailbox43)\<lparr>exec_run := \<lparr>started = 0, finished = 3 * Millisecond,
           fired = OpReturned (Some (ErrorNew ''short write''))\<rparr>\<rparr>)
      False 12 10 ((New default_config)\<lparr>c := Some (Conn 1)\<rparr>)) = 12 \<and>
   effects (handleNewMessages (smooth mailbox43) False 12 12
      (after (handleNewMessages
         ((smooth mailbox43)\<lparr>exec_run := \<lparr>started = 0, finished = 3 * Millisecond,
              fired = OpReturned (Some (ErrorNew ''short write''))\<rparr>\<rparr>)
         False 12 10 ((New default_config)\<lparr>c := Some (Conn 1)\<rparr>)))) = [] \<and>
   emitted (handleNewMessages (smooth mailbox43) False 12 12
      (after (handleNewMessages
         ((smooth mailbox43)\<lparr>exec_run := \<lparr>started = 0, finished = 3 * Millisecond,
              fired = OpReturned (Some (ErrorNew ''short write''))\<rparr>\<rparr>)
         False 12 10 ((New default_config)\<lparr>c := Some (Conn 1)\<rparr>)))) = []"
  by (simp add: handleNewMessages_def smooth_def Exec_def Let_def)

text \<open>
  C2, amended: if the fetch of the range fails, the failure is only logged: the session is
  not reset, no Event is emitted and the counter of in-flight work is unchanged. The
  baseline is advanced to the observed count all the same and the call reports the cycle
  as handled, so the range is not computed again: a later cycle that observes the same
  count does nothing.
\<close>

theorem C2_failed_fetch_logged_baseline_advanced:
  assumes "baseline < newTotal"
    and "idling \<longrightarrow> \<not> ctx_done_at_entry env \<and> idle_exit_err env = None"
    and "snd (Exec cl ''fetch-uids'' (exec_run env)) = Some err"
  shows "effects (handleNewMessages env idling newTotal baseline cl)
       = (if idling then [StopClosed] else []) @
         (if c cl \<noteq> None then [FetchUids (baseline + 1) newTotal] else []) @
         [Logged ''fetch uids error'' err] \<and>
     c (after (handleNewMessages env idling newTotal baseline cl)) = c cl \<and>
     activeFetches (after (handleNewMessages env idling newTotal baseline cl)) = activeFetches cl \<and>
     emitted (handleNewMessages env idling newTotal baseline cl) = [] \<and>
     ret (handleNewMessages env idling newTotal baseline cl) \<and>
     new_baseline (handleNewMessages env idling newTotal baseline cl) = newTotal \<and>
     handleNewMessages env' idling' newTotal
         (new_baseline (handleNewMessages env idling newTotal baseline cl))
         (after (handleNewMessages env idling newTotal baseline cl))
       = \<lparr>ret = False, new_baseline = newTotal,
          after = after (handleNewMessages env idling newTotal baseline cl),
          emitted = [], effects = []\<rparr>"
proof -
  obtain cl1 where ex: "Exec cl ''fetch-uids'' (exec_run env) = (cl1, Some err)"
    using assms(3) by (cases "Exec cl ''fetch-uids'' (exec_run env)") auto
  have keep: "c cl1 = c cl \<and> activeFetches cl1 = activeFetches cl"
    using ex by (auto simp: Exec_def updateStats_def Let_def split: option.splits)
  from assms(1) have nle: "\<not> newTotal \<le> baseline" by simp
  from assms(2) have idle: "(if idling then idle_exit_err env else None) = None"
    and entry: "\<not> (idling \<and> ctx_done_at_entry env)" by auto
  have r: "handleNewMessages env idling newTotal baseline cl
     = \<lparr>ret = True, new_baseline = newTotal, after = cl1, emitted = [],
        effects = (if idling then [StopClosed] else []) @
          (if c cl \<noteq> None then [FetchUids (baseline + 1) newTotal] else []) @
          [Logged ''fetch uids error'' err]\<rparr>"
    using nle entry by (simp add: handleNewMessages_def idle ex Let_def)
  have again: "handleNewMessages env' idling' newTotal newTotal cl1
     = \<lparr>ret = False, new_baseline = newTotal, after = cl1, emitted = [], effects = []\<rparr>"
    by (simp add: handleNewMessages_def)
  show ?thesis by (simp add: r again keep)
qed

theorem C2_failed_fetch_logged_baseline_advanced_witness:
  "(10::uint32) < 12 \<and>
   snd (Exec ((New default_config)\<lparr>c := Some (Conn 1)\<rparr>) ''fetch-uids''
          \<lparr>started = 0, finished = 3 * Millisecond, fired = OpReturned (Some (ErrorNew ''short write''))\<rparr>)
     = Some (ErrorNew ''short write'') \<and>
   effects (handleNewMessages
      ((smooth mailbox43)\<lparr>exec_run := \<lparr>started = 0, finished = 3 * Millisecond,
           fired = OpReturned (Some (ErrorNew ''short write''))\<rparr>\<rparr>)
      True 12 10 ((New default_config)\<lparr>c := Some (Conn 1)\<rparr>))
     = [StopClosed, FetchUids 11 12, Logged ''fetch uids error'' (ErrorNew ''short write'')] \<and>
   new_baseline (handleNewMessages
      ((smooth mailbox43)\<lparr>exec_run := \<lparr>started = 0, finished = 3 * Millisecond,
           fired = OpReturned (Some (ErrorNew ''short write''))\<rparr>\<rparr>)
      True 12 10 ((New default_config)\<lparr>c := Some (Conn 1)\<rparr>)) = 12"
proof -
  let ?cl = "(New default_config)\<lparr>c := Some (Conn 1)\<rparr>"
  let ?run = "\<lparr>started = 0, finished = 3 * Millisecond, fired = OpReturned (Some (ErrorNew ''short write''))\<rparr>"
  let ?env = "(smooth mailbox43)\<lparr>exec_run := ?run\<rparr>"
  have h1: "(10::uint32) < 12" by simp
  have h2: "True \<longrightarrow> \<not> ctx_done_at_entry ?env \<and> idle_exit_err ?env = None"
    by (simp add: smooth_def)
  have e: "snd (Exec ?cl ''fetch-uids'' ?run) = Some (ErrorNew ''short write'')"
    by (simp add: Exec_def Let_def)
  then have h3: "snd (Exec ?cl ''fetch-uids'' (exec_run ?env)) = Some (ErrorNew ''short write'')"
    by simp
  from C2_failed_fetch_logged_baseline_advanced [OF h1 h2 h3]
  have "effects (handleNewMessages ?env True 12 10 ?cl)
       = (if True then [StopClosed] else []) @
         (if c ?cl \<noteq> None then [FetchUids (10 + 1) 12] else []) @
         [Logged ''fetch uids error'' (ErrorNew ''short write'')]"
    and "new_baseline (handleNewMessages ?env True 12 10 ?cl) = 12"
    by blast+
  then have "effects (handleNewMessages ?env True 12 10 ?cl)
       = [StopClosed, FetchUids 11 12, Logged ''fetch uids error'' (ErrorNew ''short write'')]"
    and "new_baseline (handleNewMessages ?env True 12 10 ?cl) = 12"
    by simp_all
  with h1 e show ?thesis by blast
qed

subsection \<open>The consumer: fetching a message with retries\<close>

lemma ascii_lower_idem: "ascii_lower (ascii_lower x) = ascii_lower x"
proof (cases "(65::nat) \<le> of_char x \<and> of_char x \<le> (90::nat)")
  case True
  then have "(of_char x + 32) mod 256 = (of_char x + 32 :: nat)" by simp
  with True show ?thesis by (simp add: ascii_lower_def)
next
  case False
  then have "ascii_lower x = x" by (auto simp: ascii_lower_def)
  then show ?thesis by simp
qed

lemma ascii_of_ascii_lower: "ascii (ascii_lower x) \<Longrightarrow> ascii x"
  by (auto simp: ascii_def ascii_lower_def split: if_splits)

lemma ascii_not_lead: "ascii x \<Longrightarrow> \<not> long_s (x # t) \<and> \<not> kelvin (x # t)"
  by (auto simp: ascii_def long_s_def kelvin_def)

lemma long_s_Cons: "long_s (x # t) \<longleftrightarrow> x = CHR 0xC5 \<and> (\<exists>t'. t = CHR 0xBF # t')"
  by (cases t) (auto simp: long_s_def)

lemma kelvin_Cons: "kelvin (x # t) \<longleftrightarrow> x = CHR 0xE2 \<and> (\<exists>t'. t = CHR 0x84 # CHR 0xAA # t')"
proof (cases t)
  case Nil
  then show ?thesis by (simp add: kelvin_def)
next
  case (Cons y u)
  then show ?thesis by (cases u) (auto simp: kelvin_def)
qed

lemma casefold_fold_prefix:
  "\<forall>q \<in> set (casefold mid). ascii q \<Longrightarrow> fold_prefix (casefold mid) (mid @ post)"
proof (induction mid rule: casefold.induct)
  case 1
  then show ?case by simp
next
  case (2 x t)
  show ?case
  proof (cases "long_s (x # t)")
    case True
    then obtain t' where t: "x = CHR 0xC5" "t = CHR 0xBF # t'" by (auto simp: long_s_Cons)
    from True "2.prems" have "\<forall>q \<in> set (casefold (drop 1 t)). ascii q" by simp
    with True "2.IH"(1) have "fold_prefix (casefold (drop 1 t)) (drop 1 t @ post)" by simp
    with True t show ?thesis
      by (simp add: fold_head_def long_s_def ascii_lower_def)
  next
    case False
    show ?thesis
    proof (cases "kelvin (x # t)")
      case True
      then obtain t' where t: "x = CHR 0xE2" "t = CHR 0x84 # CHR 0xAA # t'"
        by (auto simp: kelvin_Cons)
      from True False "2.prems" have "\<forall>q \<in> set (casefold (drop 2 t)). ascii q" by simp
      with True False "2.IH"(2) have "fold_prefix (casefold (drop 2 t)) (drop 2 t @ post)" by simp
      with True False t show ?thesis
        by (simp add: fold_head_def long_s_def kelvin_def ascii_lower_def)
    next
      case F2: False
      from False F2 "2.prems" have a: "ascii (ascii_lower x)"
        and rest: "\<forall>q \<in> set (casefold t). ascii q" by simp_all
      from a have "ascii x" by (rule ascii_of_ascii_lower)
      then have nl: "\<not> long_s (x # t @ post)" "\<not> kelvin (x # t @ post)"
        using ascii_not_lead by blast+
      from False F2 rest "2.IH"(3) have "fold_prefix (casefold t) (t @ post)" by simp
      with False F2 nl show ?thesis
        by (simp add: fold_head_def ascii_lower_idem)
    qed
  qed
qed

lemma fold_prefix_casefold:
  "fold_prefix p t \<Longrightarrow> \<forall>q \<in> set p. ascii_lower q = q \<Longrightarrow>
   \<exists>mid post. t = mid @ post \<and> casefold mid = p"
proof (induction p t rule: fold_prefix.induct)
  case (1 t)
  have "t = [] @ t \<and> casefold [] = []" by simp
  then show ?case by blast
next
  case (2 p ps)
  then show ?case by simp
next
  case (3 p ps x t)
  from "3.prems" have hd: "fst (fold_head (x # t)) = p"
    and tl: "fold_prefix ps (snd (fold_head (x # t)))"
    and low: "\<forall>q \<in> set ps. ascii_lower q = q" by simp_all
  from "3.IH" [OF tl low] obtain mid post
    where rest: "snd (fold_head (x # t)) = mid @ post" and cf: "casefold mid = ps" by blast
  show ?case
  proof (cases "long_s (x # t)")
    case True
    then obtain t' where t: "x = CHR 0xC5" "t = CHR 0xBF # t'" by (auto simp: long_s_Cons)
    from True rest t have "t' = mid @ post" by (simp add: fold_head_def)
    moreover from True hd have "p = CHR ''s''" by (simp add: fold_head_def)
    ultimately have "x # t = (CHR 0xC5 # CHR 0xBF # mid) @ post \<and>
        casefold (CHR 0xC5 # CHR 0xBF # mid) = p # ps"
      using t cf by (simp add: long_s_def)
    then show ?thesis by blast
  next
    case False
    show ?thesis
    proof (cases "kelvin (x # t)")
      case True
      then obtain t' where t: "x = CHR 0xE2" "t = CHR 0x84 # CHR 0xAA # t'"
        by (auto simp: kelvin_Cons)
      from True False rest t have "t' = mid @ post" by (simp add: fold_head_def)
      moreover from True False hd have "p = CHR ''k''" by (simp add: fold_head_def)
      ultimately have "x # t = (CHR 0xE2 # CHR 0x84 # CHR 0xAA # mid) @ post \<and>
          casefold (CHR 0xE2 # CHR 0x84 # CHR 0xAA # mid) = p # ps"
        using t cf by (simp add: long_s_def kelvin_def)
      then show ?thesis by blast
    next
      case F2: False
      from False F2 rest have t: "t = mid @ post" by (simp add: fold_head_def)
      from False F2 hd have p: "ascii_lower x = p" by (simp add: fold_head_def)
      from False t have "\<not> long_s (x # mid)"
        by (auto simp: long_s_Cons)
      moreover from F2 t have "\<not> kelvin (x # mid)"
        by (auto simp: kelvin_Cons)
      ultimately have "x # t = (x # mid) @ post \<and> casefold (x # mid) = p # ps"
        using t p cf by simp
      then show ?thesis by blast
    qed
  qed
qed

lemma transient_alternatives_plain:
  "\<forall>p \<in> set transient_alternatives. \<forall>q \<in> set p. ascii q \<and> ascii_lower q = q"
  by (simp add: transient_alternatives_def ascii_def ascii_lower_def)

lemma transientRe_MatchString_iff:
  "transientRe_MatchString text \<longleftrightarrow>
     (\<exists>p \<in> set transient_alternatives. matches_ignoring_case p text)"
proof
  assume "transientRe_MatchString text"
  then obtain rest p where s: "suffix rest text" and p: "p \<in> set transient_alternatives"
    and m: "fold_prefix p rest"
    by (auto simp: transientRe_MatchString_def list_ex_iff)
  from p transient_alternatives_plain have "\<forall>q \<in> set p. ascii_lower q = q" by blast
  from fold_prefix_casefold [OF m this] obtain mid post
    where "rest = mid @ post" "casefold mid = p" by blast
  moreover from s obtain pre where "text = pre @ rest" by (auto simp: suffix_def)
  ultimately have "sublist mid text \<and> casefold mid = p" by (auto simp: sublist_def)
  with p show "\<exists>p \<in> set transient_alternatives. matches_ignoring_case p text"
    by (auto simp: matches_ignoring_case_def)
next
  assume "\<exists>p \<in> set transient_alternatives. matches_ignoring_case p text"
  then obtain p mid where p: "p \<in> set transient_alternatives"
    and sub: "sublist mid text" and cf: "casefold mid = p"
    by (auto simp: matches_ignoring_case_def)
  from sub obtain pre post where tx: "text = pre @ mid @ post" by (auto simp: sublist_def)
  from p cf transient_alternatives_plain have "\<forall>q \<in> set (casefold mid). ascii q" by blast
  from casefold_fold_prefix [OF this, of post] cf have "fold_prefix p (mid @ post)" by simp
  moreover from tx have "suffix (mid @ post) text" by (simp add: suffix_def)
  ultimately show "transientRe_MatchString text"
    using p by (auto simp: transientRe_MatchString_def list_ex_iff)
qed

lemma fetch_loop_unrolled:
  "fetch_loop fetch 0 \<lparr>calls = 0, slept = [], msg = None, perr = None\<rparr> =
     (if \<not> transient_failure (fetch 0) then
        \<lparr>calls = 1, slept = [], msg = fst (fetch 0), perr = snd (fetch 0)\<rparr>
      else if \<not> transient_failure (fetch 1) then
        \<lparr>calls = 2, slept = [150 * Millisecond], msg = fst (fetch 1), perr = snd (fetch 1)\<rparr>
      else if \<not> transient_failure (fetch 2) then
        \<lparr>calls = 3, slept = [150 * Millisecond, 150 * Millisecond],
         msg = fst (fetch 2), perr = snd (fetch 2)\<rparr>
      else
        \<lparr>calls = 3, slept = [150 * Millisecond, 150 * Millisecond, 150 * Millisecond],
         msg = fst (fetch 2), perr = snd (fetch 2)\<rparr>)"
  by (simp add: fetch_loop.simps [of fetch 0] fetch_loop.simps [of fetch "Suc 0"]
        fetch_loop.simps [of fetch "Suc (Suc 0)"] fetch_loop.simps [of fetch "Suc (Suc (Suc 0))"]
        maxFetchRetry_def transient_failure_def Let_def numeral_2_eq_2 split: option.splits)

text \<open>
  C8: a fetch error is classified transient exactly when its text matches, without regard
  to case, one of the substrings "short write", "timeout", "temporarily", "reset",
  "closed". For one Event the consumer calls the fetch once, and again after each
  transient error, up to three calls in all (two retries), sleeping 150 ms after each
  transient error; an error that does not match ends the loop at once. Whatever error the
  loop ends with is logged with the Event's UID and the in-flight counter is released. In
  particular an error that does not match at the first call is logged after that single
  call, without a retry or a sleep.
\<close>

theorem C8_transient_fetch_errors_retried_twice:
  "(transientRe_MatchString text \<longleftrightarrow>
      (\<exists>p \<in> set [''short write'', ''timeout'', ''temporarily'', ''reset'', ''closed''].
          matches_ignoring_case p text)) \<and>
   calls (retried (consume_fetch fetch ev cl)) \<le> 3 \<and>
   calls (retried (consume_fetch fetch ev cl)) =
     (if transient_failure (fetch 0) then if transient_failure (fetch 1) then 3 else 2 else 1) \<and>
   slept (retried (consume_fetch fetch ev cl)) =
     replicate (length (takeWhile transient_failure [fetch 0, fetch 1, fetch 2])) (150 * Millisecond) \<and>
   perr (retried (consume_fetch fetch ev cl))
     = snd (fetch (calls (retried (consume_fetch fetch ev cl)) - 1)) \<and>
   logged_failure (consume_fetch fetch ev cl)
     = map_option (Pair (Event.UID ev)) (perr (retried (consume_fetch fetch ev cl))) \<and>
   client_after_fetch (consume_fetch fetch ev cl)
     = (if perr (retried (consume_fetch fetch ev cl)) = None then cl else EndProcess cl) \<and>
   (\<forall>e. snd (fetch 0) = Some e \<and> \<not> transientRe_MatchString (Error e) \<longrightarrow>
      calls (retried (consume_fetch fetch ev cl)) = 1 \<and>
      slept (retried (consume_fetch fetch ev cl)) = [] \<and>
      logged_failure (consume_fetch fetch ev cl) = Some (Event.UID ev, e) \<and>
      client_after_fetch (consume_fetch fetch ev cl) = EndProcess cl)"
proof -
  have cls: "transientRe_MatchString text \<longleftrightarrow>
      (\<exists>p \<in> set [''short write'', ''timeout'', ''temporarily'', ''reset'', ''closed''].
          matches_ignoring_case p text)"
    using transientRe_MatchString_iff [of "text"] by (simp only: transient_alternatives_def)
  have nt: "\<not> transient_failure (fetch 0)"
    if "snd (fetch 0) = Some e" "\<not> transientRe_MatchString (Error e)" for e
    using that by (simp add: transient_failure_def)
  have none: "\<not> transient_failure res" if "snd res = None" for res :: "'a option \<times> error option"
    using that by (simp add: transient_failure_def)
  have loop: "calls (retried (consume_fetch fetch ev cl)) \<le> 3 \<and>
   calls (retried (consume_fetch fetch ev cl)) =
     (if transient_failure (fetch 0) then if transient_failure (fetch 1) then 3 else 2 else 1) \<and>
   slept (retried (consume_fetch fetch ev cl)) =
     replicate (length (takeWhile transient_failure [fetch 0, fetch 1, fetch 2])) (150 * Millisecond) \<and>
   perr (retried (consume_fetch fetch ev cl))
     = snd (fetch (calls (retried (consume_fetch fetch ev cl)) - 1)) \<and>
   logged_failure (consume_fetch fetch ev cl)
     = map_option (Pair (Event.UID ev)) (perr (retried (consume_fetch fetch ev cl))) \<and>
   client_after_fetch (consume_fetch fetch ev cl)
     = (if perr (retried (consume_fetch fetch ev cl)) = None then cl else EndProcess cl)"
    by (auto simp: consume_fetch_def fetch_loop_unrolled Let_def numeral_2_eq_2 none
             split: option.splits)
  have first: "calls (retried (consume_fetch fetch ev cl)) = 1 \<and>
      slept (retried (consume_fetch fetch ev cl)) = [] \<and>
      logged_failure (consume_fetch fetch ev cl) = Some (Event.UID ev, e) \<and>
      client_after_fetch (consume_fetch fetch ev cl) = EndProcess cl"
    if "snd (fetch 0) = Some e" "\<not> transientRe_MatchString (Error e)" for e
    using nt [OF that] that(1)
    by (simp add: consume_fetch_def fetch_loop_unrolled Let_def)
  from cls loop first show ?thesis by blast
qed

theorem C8_transient_fetch_errors_retried_twice_witness:
  "transientRe_MatchString ''RESET'' \<and> \<not> transientRe_MatchString ''bad'' \<and>
   calls (retried (consume_fetch (\<lambda>k. (None :: unit option, Some (ErrorNew ''RESET'')))
       (Event 7) ((New default_config)\<lparr>activeFetches := 1\<rparr>))) = 3 \<and>
   calls (retried (consume_fetch (\<lambda>k. (None :: unit option, Some (ErrorNew ''bad'')))
       (Event 7) ((New default_config)\<lparr>activeFetches := 1\<rparr>))) = 1 \<and>
   slept (retried (consume_fetch (\<lambda>k. (None :: unit option, Some (ErrorNew ''bad'')))
       (Event 7) ((New default_config)\<lparr>activeFetches := 1\<rparr>))) = [] \<and>
   logged_failure (consume_fetch (\<lambda>k. (None :: unit option, Some (ErrorNew ''bad'')))
       (Event 7) ((New default_config)\<lparr>activeFetches := 1\<rparr>)) = Some (7, ErrorNew ''bad'')"
proof -
  let ?cl = "(New default_config)\<lparr>activeFetches := 1\<rparr>"
  let ?again = "\<lambda>k::nat. (None :: unit option, Some (ErrorNew ''RESET''))"
  let ?fatal = "\<lambda>k::nat. (None :: unit option, Some (ErrorNew ''bad''))"
  have yes: "transientRe_MatchString ''RESET''"
    by (simp add: transientRe_MatchString_def transient_alternatives_def fold_head_def
          long_s_def kelvin_def ascii_lower_def char_of_eq_iff)
  have no: "\<not> transientRe_MatchString ''bad''"
    by (simp add: transientRe_MatchString_def transient_alternatives_def fold_head_def
          long_s_def kelvin_def ascii_lower_def char_of_eq_iff)
  from yes have tf: "transient_failure (?again 0)" "transient_failure (?again 1)"
    by (simp_all add: transient_failure_def)
  from no have h: "snd (?fatal 0) = Some (ErrorNew ''bad'') \<and> \<not> transientRe_MatchString (Error (ErrorNew ''bad''))"
    by simp
  from C8_transient_fetch_errors_retried_twice [of "''RESET''" ?again "Event 7" ?cl]
  have "calls (retried (consume_fetch ?again (Event 7) ?cl)) =
     (if transient_failure (?again 0) then if transient_failure (?again 1) then 3 else 2 else 1)"
    by blast
  with tf have three: "calls (retried (consume_fetch ?again (Event 7) ?cl)) = 3"
    by (simp only: if_True)
  from C8_transient_fetch_errors_retried_twice [of "''bad''" ?fatal "Event 7" ?cl] h
  have "calls (retried (consume_fetch ?fatal (Event 7) ?cl)) = 1 \<and>
      slept (retried (consume_fetch ?fatal (Event 7) ?cl)) = [] \<and>
      logged_failure (consume_fetch ?fatal (Event 7) ?cl) = Some (Event.UID (Event 7), ErrorNew ''bad'')"
    by blast
  with yes no three show ?thesis by simp
qed

subsection \<open>The webhook payload\<close>

text \<open>
  C10: for every body limit (and every runtime), \<open>BuildPayload\<close> applied to a nil message
  pointer returns the zero \<open>Payload\<close>, all of whose fields are empty; no field of a
  message is read.
\<close>

theorem C10_BuildPayload_nil:
  "BuildPayload rt None bodyLimit =
     \<lparr>UID = 0, Subject = '''', From = '''', Date = '''', Body = '''', BodyLines = [],
      Preview = '''', WordCount = 0, Mailbox = '''', Timestamp = 0, RawHTML = '''', Blocks = [],
      HasAttachments = False, Attachments = [], AttachmentCount = 0\<rparr>"
  by (simp add: BuildPayload_def)

end
